theory Spec2Isabelle
  imports Main
begin

section \<open>Paths (pathlib, POSIX flavour)\<close>

text \<open>
  A \<open>pathlib.PurePosixPath\<close> is its root (the empty string for a relative path, \<open>/\<close>
  or \<open>//\<close> otherwise) and the list of its components. Parsing a string splits it at
  \<open>/\<close> and drops the empty components and the components \<open>.\<close>; a component
  \<open>..\<close> is kept as it is.
\<close>

record path =
  root :: string
  tail :: "string list"

fun split_sep :: "char \<Rightarrow> string \<Rightarrow> string list" where
  "split_sep c [] = [[]]"
| "split_sep c (x # xs) =
     (if x = c then [] # split_sep c xs
      else (case split_sep c xs of
              [] \<Rightarrow> [[x]]
            | y # ys \<Rightarrow> (x # y) # ys))"

definition parse_root :: "string \<Rightarrow> string" where
  "parse_root s =
     (let n = length (takeWhile (\<lambda>c. c = CHR ''/'') s)
      in if n = 0 then [] else if n = 2 then ''//'' else ''/'')"

definition parse_path :: "string \<Rightarrow> path" where
  "parse_path s =
     \<lparr>root = parse_root s,
      tail = filter (\<lambda>x. x \<noteq> [] \<and> x \<noteq> ''.'') (split_sep (CHR ''/'') s)\<rparr>"

text \<open>
  The operator \<open>/\<close> of pathlib with a string on the right: an absolute right operand
  replaces the left one, a relative one is appended to it.
\<close>

definition joinpath :: "path \<Rightarrow> string \<Rightarrow> path" where
  "joinpath p s =
     (let q = parse_path s
      in if root q \<noteq> [] then q else \<lparr>root = root p, tail = tail p @ tail q\<rparr>)"

text \<open>\<open>Path.parent\<close>: the path without its last component; a path with none is its own parent.\<close>

definition parent :: "path \<Rightarrow> path" where
  "parent p = \<lparr>root = root p, tail = butlast (tail p)\<rparr>"

text \<open>\<open>Path.name\<close>: the last component, the empty string when there is none.\<close>

definition name :: "path \<Rightarrow> string" where
  "name p = (if tail p = [] then [] else last (tail p))"

text \<open>\<open>str.rfind\<close> for one character: the index of its last occurrence, or \<open>-1\<close>.\<close>

fun rfind :: "char \<Rightarrow> string \<Rightarrow> int" where
  "rfind c [] = - 1"
| "rfind c (x # xs) =
     (let r = rfind c xs
      in if 0 \<le> r then r + 1 else if x = c then 0 else - 1)"

text \<open>
  \<open>Path.suffix\<close>, computed from the name: the part from the last dot on, unless the
  name has no dot, starts with its only dot or ends with a dot.
\<close>

definition suffix_of :: "string \<Rightarrow> string" where
  "suffix_of nm =
     (let i = rfind (CHR ''.'') nm
      in if 0 < i \<and> i < int (length nm) - 1 then drop (nat i) nm else [])"

definition suffix :: "path \<Rightarrow> string" where
  "suffix p = suffix_of (name p)"

text \<open>
  The path of a directory entry, as \<open>iterdir\<close> and \<open>rglob\<close> build it: the entry's name
  is one more component.
\<close>

definition child :: "path \<Rightarrow> string \<Rightarrow> path" where
  "child p nm = \<lparr>root = root p, tail = tail p @ [nm]\<rparr>"

section \<open>Data model\<close>

text \<open>
  The values of a parsed TOML document. Floats and the three date and time kinds carry
  their literal: the program never looks inside them.
\<close>

datatype toml =
    TString string
  | TInteger int
  | TBoolean bool
  | TFloat string
  | TDatetime string
  | TDate string
  | TTime string
  | TArray "toml list"
  | TTable "(string \<times> toml) list"

text \<open>
  \<open>Workflow\<close> and \<open>Repository\<close> are the two named tuples of the program. The files of a
  workflow are strings and the tags toml values: a workflow is kept only after
  \<open>validate\<close> has joined every file to a path, which fails on anything but a string,
  whereas nothing inspects a tag before it is used as a dictionary key.
\<close>

record workflow =
  wf_name :: string
  wf_parent_dir :: path
  wf_files :: "string list"
  wf_languages :: "toml list"

record repository =
  repo_path :: path
  repo_languages :: "string list"
  repo_workflows :: "string list"

text \<open>
  A Python dictionary is the list of its items in insertion order. The index of workflows
  per language tag maps a tag to its bucket of workflows.
\<close>

type_synonym wf_index = "(toml \<times> workflow list) list"

type_synonym operation = "path \<times> path"

definition WORKFLOW_PATH :: string where
  "WORKFLOW_PATH = ''.github/workflows''"

section \<open>The matcher: determine_operations\<close>

text \<open>
  The four nested loops of \<open>determine_operations\<close>, innermost first. Each takes the list
  \<open>operations\<close> built so far and returns it extended, as \<open>operations.append(op)\<close> does.
\<close>

fun files_loop :: "repository \<Rightarrow> workflow \<Rightarrow> string list \<Rightarrow> operation list \<Rightarrow> operation list" where
  "files_loop repo wflow [] operations = operations"
| "files_loop repo wflow (wf_file # rest) operations =
     files_loop repo wflow rest
       (operations @
          [(joinpath (wf_parent_dir wflow) wf_file,
            joinpath (joinpath (repo_path repo) WORKFLOW_PATH) wf_file)])"

fun workflows_loop :: "repository \<Rightarrow> workflow list \<Rightarrow> operation list \<Rightarrow> operation list" where
  "workflows_loop repo [] operations = operations"
| "workflows_loop repo (wflow # rest) operations =
     workflows_loop repo rest (files_loop repo wflow (wf_files wflow) operations)"

text \<open>
  The generator \<open>lang for lang in workflows_per_language if lang in repo.languages + ["*"]\<close>
  walks the keys of the index in insertion order, and \<open>workflows_per_language[lang]\<close> for
  such a key is the value of its item: the loop walks the items.
\<close>

definition relevant :: "repository \<Rightarrow> toml \<Rightarrow> bool" where
  "relevant repo lang = (lang \<in> set (map TString (repo_languages repo @ [''*''])))"

fun langs_loop :: "repository \<Rightarrow> wf_index \<Rightarrow> operation list \<Rightarrow> operation list" where
  "langs_loop repo [] operations = operations"
| "langs_loop repo ((lang, bucket) # rest) operations =
     (if relevant repo lang
      then langs_loop repo rest (workflows_loop repo bucket operations)
      else langs_loop repo rest operations)"

fun repos_loop :: "repository list \<Rightarrow> wf_index \<Rightarrow> operation list \<Rightarrow> operation list" where
  "repos_loop [] workflows_per_language operations = operations"
| "repos_loop (repo # rest) workflows_per_language operations =
     repos_loop rest workflows_per_language
       (langs_loop repo workflows_per_language operations)"

definition determine_operations :: "repository list \<Rightarrow> wf_index \<Rightarrow> operation list" where
  "determine_operations repositories workflows_per_language =
     repos_loop repositories workflows_per_language []"

text \<open>The operation of one file of one workflow for one repository, and those of a workflow.\<close>

definition operation_of :: "repository \<Rightarrow> workflow \<Rightarrow> string \<Rightarrow> operation" where
  "operation_of repo wflow wf_file =
     (joinpath (wf_parent_dir wflow) wf_file,
      joinpath (joinpath (repo_path repo) WORKFLOW_PATH) wf_file)"

definition workflow_operations :: "repository \<Rightarrow> workflow \<Rightarrow> operation list" where
  "workflow_operations repo wflow = map (operation_of repo wflow) (wf_files wflow)"

section \<open>The manifest loader: load_workflows\<close>

text \<open>
  The exceptions the program can raise. \<open>TOMLDecodeError\<close> and \<open>OSError\<close> stand for what
  opening and parsing the manifest may raise; the others arise in the code modelled
  here.
\<close>

datatype error =
    FileNotFoundError string
  | NotADirectoryError
  | TypeError
  | KeyError string
  | TOMLDecodeError string
  | OSError string

text \<open>
  What the loader reads from the outside world: whether a path is a regular file, and the
  result of opening a file and parsing it as TOML (the items of the top-level table in
  the order of the document, or the exception raised).
\<close>

record filesystem =
  is_file :: "path \<Rightarrow> bool"
  load_toml :: "path \<Rightarrow> error + (string \<times> toml) list"

text \<open>One line on the error stream: \<open>Ignore invalid workflow NAME.  Reason: E\<close>.\<close>

datatype diagnostic = Ignore_invalid_workflow string error

fun as_list :: "toml \<Rightarrow> toml list" where
  "as_list (TArray xs) = xs"
| "as_list x = [x]"

text \<open>
  \<open>Workflow.validate\<close>: \<open>None\<close> when it returns, the exception otherwise. Joining a path
  with anything but a string raises \<open>TypeError\<close>.
\<close>

fun validate :: "(path \<Rightarrow> bool) \<Rightarrow> path \<Rightarrow> toml list \<Rightarrow> error option" where
  "validate isfile dir [] = None"
| "validate isfile dir (TString file # rest) =
     (if \<not> isfile (joinpath dir file) then Some (FileNotFoundError file)
      else validate isfile dir rest)"
| "validate isfile dir (x # rest) = Some TypeError"

text \<open>The files of a validated workflow, as the strings they are.\<close>

fun file_strings :: "toml list \<Rightarrow> string list" where
  "file_strings [] = []"
| "file_strings (TString file # rest) = file # file_strings rest"
| "file_strings (x # rest) = file_strings rest"

text \<open>
  \<open>workflows_per_language[lang].append(wf)\<close> on the \<open>defaultdict(list)\<close>: a new key goes
  to the end with a fresh bucket, a known key keeps its place. A list or a table is not
  hashable and cannot be a key: using it raises \<open>TypeError\<close>. Keys are compared as
  values, which is Python's comparison for the strings that tags are meant to be
  (\<open>languages: List[str]\<close>); that Python also takes the keys \<open>1\<close>, \<open>1.0\<close> and \<open>True\<close>
  for one key is not modelled.
\<close>

fun hashable :: "toml \<Rightarrow> bool" where
  "hashable (TArray xs) = False"
| "hashable (TTable kvs) = False"
| "hashable x = True"

fun index_append :: "toml \<Rightarrow> workflow \<Rightarrow> wf_index \<Rightarrow> wf_index" where
  "index_append lang wflow [] = [(lang, [wflow])]"
| "index_append lang wflow ((k, bucket) # rest) =
     (if k = lang then (k, bucket @ [wflow]) # rest
      else (k, bucket) # index_append lang wflow rest)"

fun index_langs :: "toml list \<Rightarrow> workflow \<Rightarrow> wf_index \<Rightarrow> error + wf_index" where
  "index_langs [] wflow idx = Inr idx"
| "index_langs (lang # rest) wflow idx =
     (if hashable lang then index_langs rest wflow (index_append lang wflow idx)
      else Inl TypeError)"

text \<open>
  The tags of an entry: \<open>["*"]\<close> when the table has no key \<open>language\<close>, the value of
  that key as a list otherwise.
\<close>

definition entry_languages :: "(string \<times> toml) list \<Rightarrow> toml list" where
  "entry_languages tbl =
     (case map_of tbl ''language'' of
        None \<Rightarrow> [TString ''*'']
      | Some v \<Rightarrow> as_list v)"

definition make_workflow :: "string \<Rightarrow> path \<Rightarrow> toml list \<Rightarrow> toml list \<Rightarrow> workflow" where
  "make_workflow nm dir files languages =
     \<lparr>wf_name = nm, wf_parent_dir = dir, wf_files = file_strings files,
      wf_languages = languages\<rparr>"

text \<open>
  The body of the loop over \<open>manifest.items()\<close> for one entry. The result is the error
  stream so far and either the exception that ends the load or the two collections.
  An entry that is not a table makes \<open>info[...]\<close> raise \<open>TypeError\<close>; a table without
  the key \<open>file\<close> makes \<open>info["file"]\<close> raise \<open>KeyError\<close>, before the \<open>try\<close>.
\<close>

definition load_entry ::
  "(path \<Rightarrow> bool) \<Rightarrow> path \<Rightarrow> string \<times> toml \<Rightarrow> workflow list \<Rightarrow> wf_index \<Rightarrow> diagnostic list
     \<Rightarrow> diagnostic list \<times> (error + workflow list \<times> wf_index)" where
  "load_entry isfile dir entry workflows workflows_per_language stderr =
     (case entry of (nm, info) \<Rightarrow>
       (case info of
          TTable tbl \<Rightarrow>
            (let languages = entry_languages tbl
             in case map_of tbl ''file'' of
                  None \<Rightarrow> (stderr, Inl (KeyError ''file''))
                | Some v \<Rightarrow>
                    (let files = as_list v
                     in case validate isfile dir files of
                          Some e \<Rightarrow>
                            (stderr @ [Ignore_invalid_workflow nm e],
                             Inr (workflows, workflows_per_language))
                        | None \<Rightarrow>
                            (let wflow = make_workflow nm dir files languages
                             in case index_langs languages wflow workflows_per_language of
                                  Inl e \<Rightarrow> (stderr, Inl e)
                                | Inr idx \<Rightarrow> (stderr, Inr (workflows @ [wflow], idx)))))
        | _ \<Rightarrow> (stderr, Inl TypeError)))"

fun load_entries ::
  "(path \<Rightarrow> bool) \<Rightarrow> path \<Rightarrow> (string \<times> toml) list \<Rightarrow> workflow list \<Rightarrow> wf_index \<Rightarrow> diagnostic list
     \<Rightarrow> diagnostic list \<times> (error + workflow list \<times> wf_index)" where
  "load_entries isfile dir [] workflows workflows_per_language stderr =
     (stderr, Inr (workflows, workflows_per_language))"
| "load_entries isfile dir (entry # rest) workflows workflows_per_language stderr =
     (case load_entry isfile dir entry workflows workflows_per_language stderr of
        (stderr', Inl e) \<Rightarrow> (stderr', Inl e)
      | (stderr', Inr (workflows', idx)) \<Rightarrow> load_entries isfile dir rest workflows' idx stderr')"

definition load_workflows ::
  "filesystem \<Rightarrow> path \<Rightarrow> diagnostic list \<times> (error + workflow list \<times> wf_index)" where
  "load_workflows fs manifest_file =
     (case load_toml fs manifest_file of
        Inl e \<Rightarrow> ([], Inl e)
      | Inr manifest \<Rightarrow> load_entries (is_file fs) (parent manifest_file) manifest [] [] [])"

section \<open>The repository scanner\<close>

text \<open>
  A directory tree. A node is a regular file, a directory with its entries in the order
  the operating system lists them, a symbolic link to a directory with the entries of
  the directory it leads to, or anything else (a socket, a dangling link). A symbolic
  link to a regular file is not told apart from the file: the program only asks
  \<open>is_file()\<close>, which follows links. A link to a directory is told apart from a directory:
  \<open>is_dir()\<close> and \<open>iterdir()\<close> follow it, but the walk of \<open>rglob\<close> lists it without
  entering it. The program never reads the entries of a link it finds during that walk,
  so a link that leads back to a directory above it is a link with any entries. Every
  directory of the tree can be listed: permission errors are not modelled.
\<close>

datatype node = File | Dir "(string \<times> node) list" | Dir_link "(string \<times> node) list" | Special

type_synonym entries = "(string \<times> node) list"

definition LANGUAGES :: "(string \<times> string list) list" where
  "LANGUAGES =
     [(''python'', [''.py'']),
      (''c++'', [''.cpp'', ''.hpp'', ''.hxx'']),
      (''markdown'', [''.md'', ''.markdown'']),
      (''rst'', [''.rst'']),
      (''lua'', [''.lua''])]"

text \<open>\<open>Path.iterdir\<close> on a directory: the paths of its entries.\<close>

definition iterdir :: "path \<Rightarrow> entries \<Rightarrow> (path \<times> node) list" where
  "iterdir p es = map (\<lambda>(nm, e). (child p nm, e)) es"

text \<open>
  \<open>Path.rglob("*")\<close> walks the directory and every directory below it, each directory
  before its subdirectories, and yields the entries of each of them. The walk enters an
  entry when \<open>entry.is_dir(follow_symlinks=False)\<close> holds: a directory, not a link to
  one. The order is that of Python up to 3.11; later versions visit the same directories
  in another order.
\<close>

fun subdirs_node :: "path \<Rightarrow> string \<Rightarrow> node \<Rightarrow> (path \<times> entries) list"
  and subdirs :: "path \<Rightarrow> entries \<Rightarrow> (path \<times> entries) list" where
  "subdirs_node p nm (Dir es) = (child p nm, es) # subdirs (child p nm) es"
| "subdirs_node p nm File = []"
| "subdirs_node p nm Special = []"
| "subdirs_node p nm (Dir_link es) = []"
| "subdirs p [] = []"
| "subdirs p ((nm, e) # rest) = subdirs_node p nm e @ subdirs p rest"

definition rglob :: "path \<Rightarrow> entries \<Rightarrow> (path \<times> node) list" where
  "rglob p es = concat (map (\<lambda>(d, des). iterdir d des) ((p, es) # subdirs p es))"

text \<open>
  The inner loop of \<open>determine_language\<close> over \<open>list(check_langs.keys())\<close>. The keys
  were copied before the loop and the loop deletes no key but the one at hand, so
  \<open>check_langs[lang]\<close> is the value the copied item carries.
\<close>

fun check_file ::
  "path \<Rightarrow> (string \<times> string list) list \<Rightarrow> (string \<times> string list) list \<Rightarrow> string list
     \<Rightarrow> (string \<times> string list) list \<times> string list" where
  "check_file file [] check_langs detected_languages = (check_langs, detected_languages)"
| "check_file file ((lang, exts) # rest) check_langs detected_languages =
     (if suffix file \<in> set exts
      then check_file file rest (filter (\<lambda>(k, v). k \<noteq> lang) check_langs)
             (detected_languages @ [lang])
      else check_file file rest check_langs detected_languages)"

fun scan_files ::
  "path list \<Rightarrow> (string \<times> string list) list \<Rightarrow> string list \<Rightarrow> string list" where
  "scan_files [] check_langs detected_languages = detected_languages"
| "scan_files (file # rest) check_langs detected_languages =
     (if check_langs = [] then detected_languages
      else (case check_file file check_langs check_langs detected_languages of
              (check_langs', detected') \<Rightarrow> scan_files rest check_langs' detected'))"

definition regular_files :: "(path \<times> node) list \<Rightarrow> path list" where
  "regular_files xs = map fst (filter (\<lambda>(x, e). e = File) xs)"

definition determine_language :: "path \<Rightarrow> entries \<Rightarrow> string list" where
  "determine_language dir_path es =
     scan_files (regular_files (rglob dir_path es)) LANGUAGES []"

text \<open>
  The entries \<open>iterdir()\<close> lists at a node for which \<open>is_dir()\<close> holds, a directory or a
  link to one; \<open>None\<close> at any other node.
\<close>

fun listing :: "node \<Rightarrow> entries option" where
  "listing (Dir es) = Some es"
| "listing (Dir_link es) = Some es"
| "listing File = None"
| "listing Special = None"

text \<open>
  What a relative path leads to, from a directory with the given entries; links to
  directories on the way are followed.
\<close>

fun lookup :: "entries \<Rightarrow> string list \<Rightarrow> node option" where
  "lookup es [] = Some (Dir es)"
| "lookup es (nm # rest) =
     (case map_of es nm of
        None \<Rightarrow> None
      | Some (Dir sub) \<Rightarrow> (if rest = [] then Some (Dir sub) else lookup sub rest)
      | Some (Dir_link sub) \<Rightarrow> (if rest = [] then Some (Dir_link sub) else lookup sub rest)
      | Some e \<Rightarrow> (if rest = [] then Some e else None))"

definition find_existing_workflows :: "path \<Rightarrow> entries \<Rightarrow> string list" where
  "find_existing_workflows repo_dir es =
     (let workflow_dir = joinpath repo_dir WORKFLOW_PATH
      in case lookup es (tail (parse_path WORKFLOW_PATH)) of
           None \<Rightarrow> []
         | Some d \<Rightarrow>
             (case listing d of
                None \<Rightarrow> []
              | Some wes \<Rightarrow>
                  map (\<lambda>(f, e). name f)
                    (filter (\<lambda>(f, e). e = File \<and> suffix f = ''.yml'')
                       (iterdir workflow_dir wes))))"

text \<open>
  The loop of \<open>find_repositories\<close> over the entries of the base directory; the generator
  keeps the entries for which \<open>is_dir()\<close> holds.
\<close>

fun repos_scan :: "(path \<times> node) list \<Rightarrow> string list \<Rightarrow> repository list \<Rightarrow> repository list" where
  "repos_scan [] ignore repos = repos"
| "repos_scan ((dir, e) # rest) ignore repos =
     (case listing e of
        None \<Rightarrow> repos_scan rest ignore repos
      | Some es \<Rightarrow>
          (if name dir \<in> set ignore then repos_scan rest ignore repos
           else repos_scan rest ignore
                  (repos @ [\<lparr>repo_path = dir,
                             repo_languages = determine_language dir es,
                             repo_workflows = find_existing_workflows dir es\<rparr>])))"

text \<open>
  \<open>find_repositories\<close> on what is at \<open>base_dir\<close>: nothing, or a node. Listing anything
  but a directory raises.
\<close>

definition find_repositories ::
  "path \<Rightarrow> node option \<Rightarrow> string list \<Rightarrow> error + repository list" where
  "find_repositories base_dir at_base ignore =
     (case at_base of
        None \<Rightarrow> Inl (FileNotFoundError ''No such file or directory'')
      | Some d \<Rightarrow>
          (case listing d of
             None \<Rightarrow> Inl NotADirectoryError
           | Some es \<Rightarrow> Inr (repos_scan (iterdir base_dir es) ignore [])))"

section \<open>A worked example: the workspace of the test suite\<close>

text \<open>
  The packages and workflows of \<open>tests/test_gwm.py\<close>, used below to run the model on
  concrete input.
\<close>

definition workflows_dir :: path where
  "workflows_dir = \<lparr>root = ''/'', tail = [''gwm'', ''tests'', ''workflows'']\<rparr>"

definition python_flake8 :: workflow where
  "python_flake8 =
     \<lparr>wf_name = ''python_flake8'', wf_parent_dir = workflows_dir,
      wf_files = [''flake8.yml'', ''flake8-problem-matcher.json''],
      wf_languages = [TString ''python'']\<rparr>"

definition git_fixup :: workflow where
  "git_fixup =
     \<lparr>wf_name = ''git_fixup'', wf_parent_dir = workflows_dir,
      wf_files = [''git.yml''], wf_languages = [TString ''*'']\<rparr>"

definition test_index :: wf_index where
  "test_index = [(TString ''python'', [python_flake8]), (TString ''*'', [git_fixup])]"

definition pkg :: "string \<Rightarrow> path" where
  "pkg nm = \<lparr>root = ''/'', tail = [''tmp'', nm]\<rparr>"

definition empty_pkg :: repository where
  "empty_pkg = \<lparr>repo_path = pkg ''empty_pkg'', repo_languages = [], repo_workflows = []\<rparr>"

definition py_pkg :: repository where
  "py_pkg = \<lparr>repo_path = pkg ''py_pkg'', repo_languages = [''python''],
              repo_workflows = [''exists1.yml'', ''exists2.yml'']\<rparr>"

definition cpp_pkg :: repository where
  "cpp_pkg = \<lparr>repo_path = pkg ''cpp_pkg'', repo_languages = [''c++''], repo_workflows = []\<rparr>"

definition in_workflow_dir :: "string \<Rightarrow> string \<Rightarrow> path" where
  "in_workflow_dir nm f = \<lparr>root = ''/'', tail = [''tmp'', nm, ''.github'', ''workflows'', f]\<rparr>"

text \<open>
  The manifest of the test suite: a workflow for \<open>python\<close> with two files, an entry
  whose file does not exist, and a workflow without \<open>language\<close>. \<open>no_file_entry\<close> is an
  entry without the key \<open>file\<close>. \<open>fs_with\<close> is the file system that holds the three
  workflow files and the given manifest.
\<close>

definition flake8_entry :: "string \<times> toml" where
  "flake8_entry =
     (''python_flake8'',
      TTable [(''file'', TArray [TString ''flake8.yml'', TString ''flake8-problem-matcher.json'']),
              (''language'', TString ''python'')])"

definition missing_entry :: "string \<times> toml" where
  "missing_entry = (''doesnotexist'', TTable [(''file'', TString ''doesnotexist.yml'')])"

definition fixup_entry :: "string \<times> toml" where
  "fixup_entry = (''git_fixup'', TTable [(''file'', TString ''git.yml'')])"

definition no_file_entry :: "string \<times> toml" where
  "no_file_entry = (''no_file'', TTable [(''language'', TString ''python'')])"

definition test_manifest :: "(string \<times> toml) list" where
  "test_manifest = [flake8_entry, missing_entry, fixup_entry]"

definition manifest_path :: path where
  "manifest_path = child workflows_dir ''workflows.toml''"

definition test_files :: "path list" where
  "test_files =
     [manifest_path, child workflows_dir ''flake8.yml'',
      child workflows_dir ''flake8-problem-matcher.json'', child workflows_dir ''git.yml'']"

definition fs_with :: "(string \<times> toml) list \<Rightarrow> filesystem" where
  "fs_with manifest =
     \<lparr>is_file = (\<lambda>p. p \<in> set test_files),
      load_toml = (\<lambda>p. if p = manifest_path then Inr manifest else Inl (OSError ''cannot open''))\<rparr>"

definition test_fs :: filesystem where
  "test_fs = fs_with test_manifest"

text \<open>
  The packages of the test suite as directory trees; a repository whose workflow
  directory is a link to a directory that also holds a file with another suffix and a
  subdirectory; the record of a package that is a link to a directory; and a directory
  that holds a link to a directory with a Python file in it.
\<close>

definition py_entries :: entries where
  "py_entries =
     [(''file.py'', File),
      (''.github'',
         Dir [(''workflows'',
                 Dir [(''exists1.yml'', File), (''exists2.yml'', File),
                      (''some_problem_matcher.json'', File)])])]"

definition py_cpp_entries :: entries where
  "py_cpp_entries = [(''file.py'', File), (''main.cpp'', File)]"

definition test_workspace :: entries where
  "test_workspace =
     [(''empty_pkg'', Dir []), (''py_pkg'', Dir py_entries),
      (''cpp_pkg'', Dir [(''main.cpp'', File)]), (''py_cpp_pkg'', Dir py_cpp_entries)]"

definition tmp_path :: path where
  "tmp_path = \<lparr>root = ''/'', tail = [''tmp'']\<rparr>"

definition wf_dir_entries :: entries where
  "wf_dir_entries =
     [(''exists1.yml'', File), (''exists2.yml'', File), (''some_problem_matcher.json'', File),
      (''archive.yml'', Dir [(''old.yml'', File)])]"

definition busy_entries :: entries where
  "busy_entries =
     [(''file.py'', File), (''.github'', Dir [(''workflows'', Dir_link wf_dir_entries)])]"

definition linked_pkg :: repository where
  "linked_pkg = \<lparr>repo_path = pkg ''linked_pkg'', repo_languages = [''c++''], repo_workflows = []\<rparr>"

definition link_entries :: entries where
  "link_entries = [(''link'', Dir_link [(''a.py'', File)]), (''notes.md'', File)]"

text \<open>
  A manifest with three workflows: a wildcard workflow, a workflow for \<open>python\<close> with
  the file \<open>ci.yml\<close>, and a second wildcard workflow, declared last, that has the file
  \<open>ci.yml\<close> too.
\<close>

definition c3_manifest :: "(string \<times> toml) list" where
  "c3_manifest =
     [(''first'', TTable [(''file'', TString ''a.yml'')]),
      (''second'', TTable [(''file'', TString ''ci.yml''), (''language'', TString ''python'')]),
      (''third'', TTable [(''file'', TArray [TString ''ci.yml'', TString ''b.yml''])])]"

definition c3_fs :: filesystem where
  "c3_fs =
     \<lparr>is_file = (\<lambda>p. p \<in> set [child workflows_dir ''a.yml'', child workflows_dir ''ci.yml'',
                                  child workflows_dir ''b.yml'']),
      load_toml = (\<lambda>p. if p = manifest_path then Inr c3_manifest else Inl (OSError ''cannot open''))\<rparr>"

definition c3_first :: workflow where
  "c3_first = \<lparr>wf_name = ''first'', wf_parent_dir = workflows_dir, wf_files = [''a.yml''],
                wf_languages = [TString ''*'']\<rparr>"

definition c3_second :: workflow where
  "c3_second = \<lparr>wf_name = ''second'', wf_parent_dir = workflows_dir, wf_files = [''ci.yml''],
                 wf_languages = [TString ''python'']\<rparr>"

definition c3_third :: workflow where
  "c3_third = \<lparr>wf_name = ''third'', wf_parent_dir = workflows_dir,
                wf_files = [''ci.yml'', ''b.yml''], wf_languages = [TString ''*'']\<rparr>"

definition c3_index :: wf_index where
  "c3_index = [(TString ''*'', [c3_first, c3_third]), (TString ''python'', [c3_second])]"

text \<open>A workflow listed under two tags.\<close>

definition multi :: workflow where
  "multi = \<lparr>wf_name = ''lint'', wf_parent_dir = workflows_dir, wf_files = [''lint.yml''],
             wf_languages = [TString ''python'', TString ''*'']\<rparr>"

section \<open>Notions used in the statements\<close>

text \<open>
  The bucket a tag has in an index, empty for a tag that is no key; the index after a
  workflow was appended under each tag of a list, and after this was done for each
  workflow of a list with its own tags.
\<close>

definition bucket_of :: "wf_index \<Rightarrow> toml \<Rightarrow> workflow list" where
  "bucket_of idx t = (case map_of idx t of None \<Rightarrow> [] | Some b \<Rightarrow> b)"

definition index_all :: "toml list \<Rightarrow> workflow \<Rightarrow> wf_index \<Rightarrow> wf_index" where
  "index_all langs wflow idx = fold (\<lambda>lang. index_append lang wflow) langs idx"

definition index_workflows :: "workflow list \<Rightarrow> wf_index \<Rightarrow> wf_index" where
  "index_workflows wfs idx = fold (\<lambda>wflow. index_all (wf_languages wflow) wflow) wfs idx"

text \<open>
  What the loader makes of one entry of the manifest: the list it reads under \<open>file\<close>,
  whether the entry is a table with the key \<open>file\<close> that passes \<open>validate\<close>, and the
  workflow it builds from the entry.
\<close>

definition entry_files :: "toml \<Rightarrow> toml list" where
  "entry_files info =
     (case info of
        TTable tbl \<Rightarrow> (case map_of tbl ''file'' of None \<Rightarrow> [] | Some v \<Rightarrow> as_list v)
      | _ \<Rightarrow> [])"

definition entry_valid :: "(path \<Rightarrow> bool) \<Rightarrow> path \<Rightarrow> string \<times> toml \<Rightarrow> bool" where
  "entry_valid isfile dir entry =
     (case snd entry of
        TTable tbl \<Rightarrow>
          (case map_of tbl ''file'' of
             None \<Rightarrow> False
           | Some v \<Rightarrow> validate isfile dir (as_list v) = None)
      | _ \<Rightarrow> False)"

definition entry_workflow :: "path \<Rightarrow> string \<times> toml \<Rightarrow> workflow" where
  "entry_workflow dir entry =
     make_workflow (fst entry) dir (entry_files (snd entry))
       (case snd entry of TTable tbl \<Rightarrow> entry_languages tbl | _ \<Rightarrow> [])"

text \<open>
  An entry declares a missing file when it is a table whose \<open>file\<close> value holds a string
  that, joined to the manifest's directory, is no regular file.
\<close>

definition missing :: "(path \<Rightarrow> bool) \<Rightarrow> path \<Rightarrow> toml \<Rightarrow> bool" where
  "missing isfile dir x = (case x of TString file \<Rightarrow> \<not> isfile (joinpath dir file) | _ \<Rightarrow> False)"

definition declares_missing_file :: "(path \<Rightarrow> bool) \<Rightarrow> path \<Rightarrow> string \<times> toml \<Rightarrow> bool" where
  "declares_missing_file isfile dir entry =
     (case snd entry of
        TTable tbl \<Rightarrow>
          (case map_of tbl ''file'' of
             None \<Rightarrow> False
           | Some v \<Rightarrow> list_ex (missing isfile dir) (as_list v))
      | _ \<Rightarrow> False)"

text \<open>
  \<open>reaches es ns e\<close>: following the names \<open>ns\<close> down from a directory with the entries
  \<open>es\<close>, through directories only, leads to the node \<open>e\<close>. The nodes reached are the
  directory's entries and everything below them at any depth that no link to a
  directory stands above. \<open>under es ns e\<close> is the same with links to directories
  followed as well: every node that has a path below the directory. \<open>extend p ns\<close> is
  the path of what \<open>ns\<close> leads to from the directory at \<open>p\<close>.
\<close>

inductive reaches :: "entries \<Rightarrow> string list \<Rightarrow> node \<Rightarrow> bool" where
  here: "(nm, e) \<in> set es \<Longrightarrow> reaches es [nm] e"
| below: "(nm, Dir sub) \<in> set es \<Longrightarrow> reaches sub ns e \<Longrightarrow> reaches es (nm # ns) e"

code_pred reaches .

inductive under :: "entries \<Rightarrow> string list \<Rightarrow> node \<Rightarrow> bool" where
  entry: "(nm, e) \<in> set es \<Longrightarrow> under es [nm] e"
| in_dir: "(nm, Dir sub) \<in> set es \<Longrightarrow> under sub ns e \<Longrightarrow> under es (nm # ns) e"
| in_link: "(nm, Dir_link sub) \<in> set es \<Longrightarrow> under sub ns e \<Longrightarrow> under es (nm # ns) e"

code_pred under .

text \<open>
  \<open>link_free es\<close>: no link to a directory is among the entries \<open>es\<close> or anywhere below
  them.
\<close>

fun link_free_node :: "node \<Rightarrow> bool"
  and link_free :: "entries \<Rightarrow> bool" where
  "link_free_node (Dir es) = link_free es"
| "link_free_node (Dir_link es) = False"
| "link_free_node File = True"
| "link_free_node Special = True"
| "link_free [] = True"
| "link_free ((nm, e) # rest) = (link_free_node e \<and> link_free rest)"

definition extend :: "path \<Rightarrow> string list \<Rightarrow> path" where
  "extend p ns = \<lparr>root = root p, tail = tail p @ ns\<rparr>"

text \<open>The tags of a registry that list the suffix of a file among their extensions.\<close>

definition hits :: "path \<Rightarrow> (string \<times> string list) list \<Rightarrow> string list" where
  "hits file snapshot = map fst (filter (\<lambda>(lang, exts). suffix file \<in> set exts) snapshot)"

text \<open>
  \<open>Path.is_dir\<close> on a node, the entries behind a node (none unless it is a directory or
  a link to one), and the record \<open>find_repositories\<close> builds for a directory.
\<close>

definition is_dir :: "node \<Rightarrow> bool" where
  "is_dir e = (listing e \<noteq> None)"

definition contents :: "node \<Rightarrow> entries" where
  "contents e = (case listing e of None \<Rightarrow> [] | Some es \<Rightarrow> es)"

definition repository_of :: "path \<Rightarrow> string \<Rightarrow> entries \<Rightarrow> repository" where
  "repository_of base_dir nm es =
     \<lparr>repo_path = child base_dir nm,
      repo_languages = determine_language (child base_dir nm) es,
      repo_workflows = find_existing_workflows (child base_dir nm) es\<rparr>"

text \<open>
  \<open>precedes xs a b\<close>: \<open>b\<close> occurs in \<open>xs\<close> after the first occurrence of \<open>a\<close>; for
  \<open>a = b\<close>, the element occurs at least twice.
\<close>

fun precedes :: "'a list \<Rightarrow> 'a \<Rightarrow> 'a \<Rightarrow> bool" where
  "precedes [] a b = False"
| "precedes (x # xs) a b = (if x = a then b \<in> set xs else precedes xs a b)"

section \<open>Properties of the matcher\<close>

lemma files_loop_eq:
  "files_loop repo wflow fs operations = operations @ map (operation_of repo wflow) fs"
  by (induction fs arbitrary: operations) (simp_all add: operation_of_def)

lemma workflows_loop_eq:
  "workflows_loop repo wfs operations =
     operations @ concat (map (workflow_operations repo) wfs)"
  by (induction wfs arbitrary: operations)
     (simp_all add: files_loop_eq workflow_operations_def)

lemma langs_loop_eq:
  "langs_loop repo idx operations =
     operations @
     concat (map (\<lambda>(lang, bucket). concat (map (workflow_operations repo) bucket))
               (filter (\<lambda>(lang, bucket). relevant repo lang) idx))"
  by (induction idx arbitrary: operations) (auto simp: workflows_loop_eq)

lemma repos_loop_eq:
  "repos_loop repos idx operations =
     operations @ concat (map (\<lambda>repo. langs_loop repo idx []) repos)"
proof (induction repos arbitrary: operations)
  case Nil
  show ?case by simp
next
  case (Cons repo repos)
  have "langs_loop repo idx operations = operations @ langs_loop repo idx []"
    by (simp add: langs_loop_eq [of repo idx operations] langs_loop_eq [of repo idx "[]"])
  then show ?case
    by (simp add: Cons.IH)
qed


lemmas path_eval =
  joinpath_def parse_path_def parse_root_def WORKFLOW_PATH_def Let_def child_def name_def
  suffix_def suffix_of_def parent_def

lemmas example_defs =
  workflows_dir_def python_flake8_def git_fixup_def test_index_def pkg_def empty_pkg_def
  py_pkg_def cpp_pkg_def in_workflow_dir_def

lemma concat_map_filter_if:
  "concat (map f (filter P xs)) = concat (map (\<lambda>x. if P x then f x else []) xs)"
  by (induction xs) auto

lemma determine_operations_concat:
  "determine_operations repos idx =
     concat (map (\<lambda>repo.
       concat (map (\<lambda>(lang, bucket). concat (map (workflow_operations repo) bucket))
                 (filter (\<lambda>(lang, bucket). relevant repo lang) idx))) repos)"
  by (simp add: determine_operations_def repos_loop_eq langs_loop_eq)

lemma set_determine_operations:
  "set (determine_operations repos idx) =
     {operation_of repo wflow wf_file | repo lang bucket wflow wf_file.
        repo \<in> set repos \<and> (lang, bucket) \<in> set idx \<and> relevant repo lang \<and>
        wflow \<in> set bucket \<and> wf_file \<in> set (wf_files wflow)}"
  unfolding determine_operations_concat workflow_operations_def
  by (auto simp: image_iff) (fastforce+)

lemma relevant_iff:
  "relevant repo lang \<longleftrightarrow> lang \<in> TString ` (set (repo_languages repo) \<union> {''*''})"
  by (auto simp: relevant_def)

lemma determine_operations_drop_tag:
  assumes "\<forall>repo\<in>set repos. \<not> relevant repo t"
  shows "determine_operations repos (filter (\<lambda>(lang, bucket). lang \<noteq> t) idx) =
         determine_operations repos idx"
proof -
  have "filter (\<lambda>(lang, bucket). relevant repo lang) (filter (\<lambda>(lang, bucket). lang \<noteq> t) idx) =
        filter (\<lambda>(lang, bucket). relevant repo lang) idx" if "repo \<in> set repos" for repo
    using that assms by (auto intro!: filter_cong)
  then show ?thesis
    unfolding determine_operations_concat by (auto intro!: arg_cong [where f = concat] map_cong)
qed

lemma joinpath_relative:
  "root (parse_path s) = [] \<Longrightarrow>
     joinpath p s = \<lparr>root = root p, tail = tail p @ tail (parse_path s)\<rparr>"
  by (simp add: joinpath_def Let_def)

lemma parse_WORKFLOW_PATH:
  "parse_path WORKFLOW_PATH = \<lparr>root = [], tail = [''.github'', ''workflows'']\<rparr>"
  by (simp add: parse_path_def parse_root_def WORKFLOW_PATH_def)

lemma test_operations:
  "determine_operations [empty_pkg, py_pkg, cpp_pkg] test_index =
     [(child workflows_dir ''git.yml'', in_workflow_dir ''empty_pkg'' ''git.yml''),
      (child workflows_dir ''flake8.yml'', in_workflow_dir ''py_pkg'' ''flake8.yml''),
      (child workflows_dir ''flake8-problem-matcher.json'',
       in_workflow_dir ''py_pkg'' ''flake8-problem-matcher.json''),
      (child workflows_dir ''git.yml'', in_workflow_dir ''py_pkg'' ''git.yml''),
      (child workflows_dir ''git.yml'', in_workflow_dir ''cpp_pkg'' ''git.yml'')]"
  by (simp add: determine_operations_def relevant_def example_defs path_eval)

text \<open>
  Claim C1. For every list of repositories and every index, \<open>determine_operations\<close>
  returns exactly the operations obtained by taking each repository, each item of the
  index whose tag is one of the repository's languages or the wildcard, each workflow of
  that item's bucket and each file of that workflow, in this order, and pairing the
  workflow's directory joined with the file with the repository's path joined with the
  workflow directory joined with the file. In particular: a workflow under the wildcard
  gives an operation for every repository, whatever its languages; a workflow under a
  tag \<open>L\<close> gives one for every repository that has \<open>L\<close>, and the bucket of \<open>L\<close> gives
  nothing for repositories that lack \<open>L\<close>; and the components of a relative file path
  all follow the workflow directory in the destination.
\<close>

theorem determine_operations_matches:
  "determine_operations repos idx =
     [(joinpath (wf_parent_dir wflow) wf_file,
       joinpath (joinpath (repo_path repo) WORKFLOW_PATH) wf_file).
        repo \<leftarrow> repos,
        (lang, bucket) \<leftarrow> idx,
        lang \<in> TString ` (set (repo_languages repo) \<union> {''*''}),
        wflow \<leftarrow> bucket,
        wf_file \<leftarrow> wf_files wflow]
   \<and> (\<forall>repo bucket wflow wf_file.
         repo \<in> set repos \<and> (TString ''*'', bucket) \<in> set idx \<and>
         wflow \<in> set bucket \<and> wf_file \<in> set (wf_files wflow)
         \<longrightarrow> operation_of repo wflow wf_file \<in> set (determine_operations repos idx))
   \<and> (\<forall>repo L bucket wflow wf_file.
         repo \<in> set repos \<and> L \<in> set (repo_languages repo) \<and> (TString L, bucket) \<in> set idx \<and>
         wflow \<in> set bucket \<and> wf_file \<in> set (wf_files wflow)
         \<longrightarrow> operation_of repo wflow wf_file \<in> set (determine_operations repos idx))
   \<and> (\<forall>L. L \<noteq> ''*'' \<and> (\<forall>repo \<in> set repos. L \<notin> set (repo_languages repo))
         \<longrightarrow> determine_operations repos idx =
             determine_operations repos (filter (\<lambda>(lang, bucket). lang \<noteq> TString L) idx))
   \<and> (\<forall>repo wflow wf_file.
         root (parse_path wf_file) = []
         \<longrightarrow> snd (operation_of repo wflow wf_file) =
             \<lparr>root = root (repo_path repo),
              tail = tail (repo_path repo) @ [''.github'', ''workflows''] @
                     tail (parse_path wf_file)\<rparr>)"
proof (intro conjI allI impI)
  show "determine_operations repos idx =
     [(joinpath (wf_parent_dir wflow) wf_file,
       joinpath (joinpath (repo_path repo) WORKFLOW_PATH) wf_file).
        repo \<leftarrow> repos,
        (lang, bucket) \<leftarrow> idx,
        lang \<in> TString ` (set (repo_languages repo) \<union> {''*''}),
        wflow \<leftarrow> bucket,
        wf_file \<leftarrow> wf_files wflow]"
    unfolding determine_operations_concat
    by (simp add: concat_map_filter_if relevant_iff workflow_operations_def operation_of_def
        case_prod_unfold cong: map_cong)
next
  fix repo bucket wflow wf_file
  assume "repo \<in> set repos \<and> (TString ''*'', bucket) \<in> set idx \<and>
         wflow \<in> set bucket \<and> wf_file \<in> set (wf_files wflow)"
  moreover have "relevant repo (TString ''*'')"
    by (simp add: relevant_def)
  ultimately show "operation_of repo wflow wf_file \<in> set (determine_operations repos idx)"
    unfolding set_determine_operations by blast
next
  fix repo L bucket wflow wf_file
  assume a: "repo \<in> set repos \<and> L \<in> set (repo_languages repo) \<and>
         (TString L, bucket) \<in> set idx \<and>
         wflow \<in> set bucket \<and> wf_file \<in> set (wf_files wflow)"
  then have "relevant repo (TString L)"
    by (simp add: relevant_def)
  with a show "operation_of repo wflow wf_file \<in> set (determine_operations repos idx)"
    unfolding set_determine_operations by blast
next
  fix L
  assume "L \<noteq> ''*'' \<and> (\<forall>repo \<in> set repos. L \<notin> set (repo_languages repo))"
  then have "\<forall>repo\<in>set repos. \<not> relevant repo (TString L)"
    by (auto simp: relevant_def)
  then show "determine_operations repos idx =
             determine_operations repos (filter (\<lambda>(lang, bucket). lang \<noteq> TString L) idx)"
    by (simp add: determine_operations_drop_tag)
next
  fix repo wflow wf_file
  assume "root (parse_path wf_file) = []"
  then show "snd (operation_of repo wflow wf_file) =
             \<lparr>root = root (repo_path repo),
              tail = tail (repo_path repo) @ [''.github'', ''workflows''] @
                     tail (parse_path wf_file)\<rparr>"
    by (simp add: operation_of_def joinpath_relative parse_WORKFLOW_PATH)
qed

theorem determine_operations_matches_witness:
  "determine_operations [empty_pkg, py_pkg, cpp_pkg] test_index =
     [(child workflows_dir ''git.yml'', in_workflow_dir ''empty_pkg'' ''git.yml''),
      (child workflows_dir ''flake8.yml'', in_workflow_dir ''py_pkg'' ''flake8.yml''),
      (child workflows_dir ''flake8-problem-matcher.json'',
       in_workflow_dir ''py_pkg'' ''flake8-problem-matcher.json''),
      (child workflows_dir ''git.yml'', in_workflow_dir ''py_pkg'' ''git.yml''),
      (child workflows_dir ''git.yml'', in_workflow_dir ''cpp_pkg'' ''git.yml'')]
   \<and> empty_pkg \<in> set [empty_pkg, py_pkg, cpp_pkg] \<and> repo_languages empty_pkg = []
   \<and> (TString ''*'', [git_fixup]) \<in> set test_index \<and> ''git.yml'' \<in> set (wf_files git_fixup)
   \<and> operation_of empty_pkg git_fixup ''git.yml''
       \<in> set (determine_operations [empty_pkg, py_pkg, cpp_pkg] test_index)
   \<and> py_pkg \<in> set [empty_pkg, py_pkg, cpp_pkg] \<and> ''python'' \<in> set (repo_languages py_pkg)
   \<and> (TString ''python'', [python_flake8]) \<in> set test_index
   \<and> ''flake8.yml'' \<in> set (wf_files python_flake8)
   \<and> operation_of py_pkg python_flake8 ''flake8.yml''
       \<in> set (determine_operations [empty_pkg, py_pkg, cpp_pkg] test_index)
   \<and> ''python'' \<noteq> ''*'' \<and> ''python'' \<notin> set (repo_languages empty_pkg)
   \<and> ''python'' \<notin> set (repo_languages cpp_pkg)
   \<and> determine_operations [empty_pkg, cpp_pkg] test_index =
       determine_operations [empty_pkg, cpp_pkg] [(TString ''*'', [git_fixup])]
   \<and> root (parse_path ''sub/dir/ci.yml'') = []
   \<and> snd (operation_of py_pkg git_fixup ''sub/dir/ci.yml'') =
       \<lparr>root = ''/'', tail = [''tmp'', ''py_pkg'', ''.github'', ''workflows'', ''sub'', ''dir'', ''ci.yml'']\<rparr>"
proof -
  let ?repos = "[empty_pkg, py_pkg, cpp_pkg]"
  note all = determine_operations_matches [of ?repos test_index]
  note two = determine_operations_matches [of "[empty_pkg, cpp_pkg]" test_index]
  have h1: "empty_pkg \<in> set ?repos \<and> (TString ''*'', [git_fixup]) \<in> set test_index \<and>
            git_fixup \<in> set [git_fixup] \<and> ''git.yml'' \<in> set (wf_files git_fixup)"
    by (simp add: example_defs)
  have h2: "py_pkg \<in> set ?repos \<and> ''python'' \<in> set (repo_languages py_pkg) \<and>
            (TString ''python'', [python_flake8]) \<in> set test_index \<and>
            python_flake8 \<in> set [python_flake8] \<and> ''flake8.yml'' \<in> set (wf_files python_flake8)"
    by (simp add: example_defs)
  have h3: "''python'' \<noteq> ''*'' \<and>
            (\<forall>repo \<in> set [empty_pkg, cpp_pkg]. ''python'' \<notin> set (repo_languages repo))"
    by (simp add: example_defs)
  have h4: "root (parse_path ''sub/dir/ci.yml'') = []"
    by (simp add: parse_path_def parse_root_def)
  have c1: "operation_of empty_pkg git_fixup ''git.yml'' \<in> set (determine_operations ?repos test_index)"
    using all [THEN conjunct2, THEN conjunct1, rule_format, OF h1] .
  have c2: "operation_of py_pkg python_flake8 ''flake8.yml''
              \<in> set (determine_operations ?repos test_index)"
    using all [THEN conjunct2, THEN conjunct2, THEN conjunct1, rule_format, OF h2] .
  have c3: "determine_operations [empty_pkg, cpp_pkg] test_index =
            determine_operations [empty_pkg, cpp_pkg]
              (filter (\<lambda>(lang, bucket). lang \<noteq> TString ''python'') test_index)"
    using two [THEN conjunct2, THEN conjunct2, THEN conjunct2, THEN conjunct1, rule_format, OF h3] .
  have c4: "snd (operation_of py_pkg git_fixup ''sub/dir/ci.yml'') =
            \<lparr>root = root (repo_path py_pkg),
             tail = tail (repo_path py_pkg) @ [''.github'', ''workflows''] @
                    tail (parse_path ''sub/dir/ci.yml'')\<rparr>"
    using all [THEN conjunct2, THEN conjunct2, THEN conjunct2, THEN conjunct2, rule_format, OF h4] .
  have f: "filter (\<lambda>(lang, bucket). lang \<noteq> TString ''python'') test_index =
           [(TString ''*'', [git_fixup])]"
    by (simp add: test_index_def)
  have t: "tail (parse_path ''sub/dir/ci.yml'') = [''sub'', ''dir'', ''ci.yml'']"
    by (simp add: parse_path_def)
  show ?thesis
    using h1 h2 h3 h4 c1 c2 c3 c4
    by (simp add: test_operations f t) (simp add: example_defs)
qed

section \<open>Properties of the loader\<close>

lemma validate_None_iff:
  "validate isfile dir xs = None \<longleftrightarrow>
     (\<forall>x\<in>set xs. \<exists>file. x = TString file \<and> isfile (joinpath dir file))"
  by (induction isfile dir xs rule: validate.induct) auto

lemma validate_missing:
  "list_ex (missing isfile dir) xs \<Longrightarrow> \<exists>e. validate isfile dir xs = Some e"
  by (cases "validate isfile dir xs")
     (auto simp: validate_None_iff list_ex_iff missing_def split: toml.splits)

lemma validate_file_strings:
  "validate isfile dir xs = None \<Longrightarrow> map TString (file_strings xs) = xs"
  by (induction isfile dir xs rule: validate.induct) (auto split: if_splits)

lemma index_langs_eq:
  "index_langs langs wflow idx =
     (if \<forall>l\<in>set langs. hashable l then Inr (index_all langs wflow idx) else Inl TypeError)"
  by (induction langs arbitrary: idx) (auto simp: index_all_def)

lemma load_entry_stderr:
  "load_entry isfile dir entry wfs idx err =
     (err @ fst (load_entry isfile dir entry wfs idx []),
      snd (load_entry isfile dir entry wfs idx []))"
  by (auto simp: load_entry_def Let_def split: prod.splits toml.splits option.splits sum.splits)

lemma load_entries_stderr:
  "load_entries isfile dir es wfs idx err =
     (err @ fst (load_entries isfile dir es wfs idx []),
      snd (load_entries isfile dir es wfs idx []))"
proof (induction es arbitrary: wfs idx err)
  case Nil
  show ?case by simp
next
  case (Cons entry es)
  obtain d r where e0: "load_entry isfile dir entry wfs idx [] = (d, r)"
    by (cases "load_entry isfile dir entry wfs idx []")
  then have e1: "load_entry isfile dir entry wfs idx err = (err @ d, r)"
    using load_entry_stderr [of isfile dir entry wfs idx err] by simp
  show ?case
  proof (cases r)
    case (Inl e)
    with e0 e1 show ?thesis by simp
  next
    case (Inr p)
    obtain wfs' idx' where p: "p = (wfs', idx')" by (cases p)
    show ?thesis
      using e0 e1 Inr p Cons.IH [of wfs' idx' "err @ d"] Cons.IH [of wfs' idx' d]
      by simp
  qed
qed

lemma load_entries_append:
  "load_entries isfile dir (xs @ ys) wfs idx err =
     (case load_entries isfile dir xs wfs idx err of
        (err', Inl e) \<Rightarrow> (err', Inl e)
      | (err', Inr (wfs', idx')) \<Rightarrow> load_entries isfile dir ys wfs' idx' err')"
  by (induction xs arbitrary: wfs idx err) (auto split: prod.splits sum.splits)

lemma load_entry_missing:
  assumes "declares_missing_file isfile dir entry"
  shows "\<exists>e. load_entry isfile dir entry wfs idx err =
           (err @ [Ignore_invalid_workflow (fst entry) e], Inr (wfs, idx))"
proof -
  obtain nm info where entry: "entry = (nm, info)" by (cases entry)
  from assms entry obtain tbl v where info: "info = TTable tbl" and v: "map_of tbl ''file'' = Some v"
    and ex: "list_ex (missing isfile dir) (as_list v)"
    by (auto simp: declares_missing_file_def split: toml.splits option.splits)
  from validate_missing [OF ex] obtain e where "validate isfile dir (as_list v) = Some e" ..
  then show ?thesis
    by (simp add: load_entry_def entry info v Let_def)
qed

lemma load_entry_Inr:
  assumes "load_entry isfile dir entry wfs idx err = (err', Inr (wfs', idx'))"
  shows "(entry_valid isfile dir entry \<and> wfs' = wfs @ [entry_workflow dir entry] \<and>
            idx' = index_all (wf_languages (entry_workflow dir entry)) (entry_workflow dir entry) idx \<and>
            err' = err) \<or>
         (\<not> entry_valid isfile dir entry \<and> wfs' = wfs \<and> idx' = idx \<and>
            (\<exists>e. err' = err @ [Ignore_invalid_workflow (fst entry) e]))"
  using assms
  by (auto simp: load_entry_def Let_def entry_valid_def entry_workflow_def entry_files_def
        index_langs_eq make_workflow_def
      split: prod.splits toml.splits option.splits sum.splits if_splits)

lemma load_entries_Inr:
  assumes "load_entries isfile dir es wfs idx err = (err', Inr (wfs', idx'))"
  shows "wfs' = wfs @ map (entry_workflow dir) (filter (entry_valid isfile dir) es) \<and>
         idx' = index_workflows (map (entry_workflow dir) (filter (entry_valid isfile dir) es)) idx"
  using assms
proof (induction es arbitrary: wfs idx err)
  case Nil
  then show ?case by (simp add: index_workflows_def)
next
  case (Cons entry es)
  obtain d r where e: "load_entry isfile dir entry wfs idx err = (d, r)"
    by (cases "load_entry isfile dir entry wfs idx err")
  with Cons.prems obtain wfs1 idx1 where r: "r = Inr (wfs1, idx1)"
    by (cases r) auto
  from Cons.prems e r have rest: "load_entries isfile dir es wfs1 idx1 d = (err', Inr (wfs', idx'))"
    by simp
  note IH = Cons.IH [OF rest]
  from load_entry_Inr [OF e [unfolded r]] show ?case
  proof
    assume "entry_valid isfile dir entry \<and> wfs1 = wfs @ [entry_workflow dir entry] \<and>
            idx1 = index_all (wf_languages (entry_workflow dir entry)) (entry_workflow dir entry) idx \<and>
            d = err"
    with IH show ?thesis by (simp add: index_workflows_def)
  next
    assume "\<not> entry_valid isfile dir entry \<and> wfs1 = wfs \<and> idx1 = idx \<and>
            (\<exists>e. d = err @ [Ignore_invalid_workflow (fst entry) e])"
    with IH show ?thesis by simp
  qed
qed

lemma bucket_of_index_append:
  "bucket_of (index_append lang wflow idx) t =
     bucket_of idx t @ (if t = lang then [wflow] else [])"
  by (induction idx) (auto simp: bucket_of_def)

lemma keys_index_append:
  "map fst (index_append lang wflow idx) =
     (if lang \<in> fst ` set idx then map fst idx else map fst idx @ [lang])"
  by (induction idx) (force simp: image_iff)+

lemma set_keys_index_append:
  "fst ` set (index_append lang wflow idx) = insert lang (fst ` set idx)"
  using keys_index_append [of lang wflow idx, THEN arg_cong, of set]
  by (auto split: if_splits)

lemma distinct_index_append:
  "distinct (map fst idx) \<Longrightarrow> distinct (map fst (index_append lang wflow idx))"
  by (simp add: keys_index_append)

lemma bucket_of_index_all:
  "bucket_of (index_all langs wflow idx) t =
     bucket_of idx t @ replicate (count_list langs t) wflow"
  unfolding index_all_def
proof (induction langs arbitrary: idx)
  case Nil
  show ?case by simp
next
  case (Cons l langs)
  show ?case
    by (simp add: Cons.IH bucket_of_index_append replicate_app_Cons_same)
qed

lemma keys_index_all:
  "fst ` set (index_all langs wflow idx) = fst ` set idx \<union> set langs"
  unfolding index_all_def
  by (induction langs arbitrary: idx) (simp_all add: set_keys_index_append)

lemma distinct_index_all:
  "distinct (map fst idx) \<Longrightarrow> distinct (map fst (index_all langs wflow idx))"
  unfolding index_all_def
  by (induction langs arbitrary: idx) (simp_all add: distinct_index_append)

lemma bucket_of_index_workflows:
  "bucket_of (index_workflows wfs idx) t =
     bucket_of idx t @
     concat (map (\<lambda>wflow. replicate (count_list (wf_languages wflow) t) wflow) wfs)"
  unfolding index_workflows_def
  by (induction wfs arbitrary: idx) (simp_all add: bucket_of_index_all)

lemma keys_index_workflows:
  "fst ` set (index_workflows wfs idx) =
     fst ` set idx \<union> (\<Union>wflow\<in>set wfs. set (wf_languages wflow))"
  unfolding index_workflows_def
  by (induction wfs arbitrary: idx) (simp_all add: keys_index_all Un_assoc)

lemma distinct_index_workflows:
  "distinct (map fst idx) \<Longrightarrow> distinct (map fst (index_workflows wfs idx))"
  unfolding index_workflows_def
  by (induction wfs arbitrary: idx) (simp_all add: distinct_index_all)

lemma bucket_of_member:
  "distinct (map fst idx) \<Longrightarrow> (t, b) \<in> set idx \<Longrightarrow> bucket_of idx t = b"
  by (simp add: bucket_of_def)

lemma count_list_distinct:
  "distinct xs \<Longrightarrow> count_list xs x = (if x \<in> set xs then 1 else 0)"
  by (induction xs) auto

lemma replicate_count_filter:
  assumes "\<forall>wflow\<in>set wfs. distinct (wf_languages wflow)"
  shows "concat (map (\<lambda>wflow. replicate (count_list (wf_languages wflow) t) wflow) wfs) =
         filter (\<lambda>wflow. t \<in> set (wf_languages wflow)) wfs"
  using assms
proof (induction wfs)
  case Nil
  show ?case by simp
next
  case (Cons w wfs)
  have "count_list (wf_languages w) t = (if t \<in> set (wf_languages w) then 1 else 0)"
    using Cons.prems by (simp add: count_list_distinct)
  with Cons show ?case by simp
qed

lemmas loader_eval =
  load_workflows_def load_entry_def entry_languages_def make_workflow_def Let_def
  manifest_path_def test_manifest_def test_fs_def fs_with_def test_files_def
  flake8_entry_def missing_entry_def fixup_entry_def

lemma test_load:
  "load_workflows test_fs manifest_path =
     ([Ignore_invalid_workflow ''doesnotexist'' (FileNotFoundError ''doesnotexist.yml'')],
      Inr ([python_flake8, git_fixup], test_index))"
  by (simp add: loader_eval example_defs path_eval)

lemma entry_workflow_name [simp]: "wf_name (entry_workflow dir entry) = fst entry"
  by (simp add: entry_workflow_def make_workflow_def)

lemma missing_not_valid:
  "declares_missing_file isfile dir entry \<Longrightarrow> \<not> entry_valid isfile dir entry"
  using validate_missing [of isfile dir]
  by (fastforce simp: declares_missing_file_def entry_valid_def split: toml.splits option.splits)

lemma index_bucket_subset:
  assumes "(t, b) \<in> set (index_workflows wfs [])"
  shows "set b \<subseteq> set wfs"
proof -
  have "distinct (map fst (index_workflows wfs []))"
    by (simp add: distinct_index_workflows)
  from bucket_of_member [OF this assms]
  have "b = bucket_of (index_workflows wfs []) t"
    by simp
  also have "\<dots> = concat (map (\<lambda>wflow. replicate (count_list (wf_languages wflow) t) wflow) wfs)"
    by (simp add: bucket_of_index_workflows) (simp add: bucket_of_def)
  finally show ?thesis by auto
qed

lemma load_workflows_Inr:
  assumes "load_toml fs mf = Inr manifest"
    and "snd (load_workflows fs mf) = Inr (wfs, idx)"
  shows "wfs = map (entry_workflow (parent mf)) (filter (entry_valid (is_file fs) (parent mf)) manifest)"
    and "idx = index_workflows wfs []"
proof -
  obtain err where "load_entries (is_file fs) (parent mf) manifest [] [] [] = (err, Inr (wfs, idx))"
    using assms by (cases "load_entries (is_file fs) (parent mf) manifest [] [] []")
      (simp add: load_workflows_def)
  from load_entries_Inr [OF this]
  show "wfs = map (entry_workflow (parent mf)) (filter (entry_valid (is_file fs) (parent mf)) manifest)"
    and "idx = index_workflows wfs []"
    by simp_all
qed

text \<open>
  Claim C2. Let an entry of the manifest declare a file that is no regular file under
  the manifest's directory. Then the load gives the same result (the same workflows and
  index, or the same exception) as for the manifest without that entry, so the entry
  does not end the load; unless an earlier entry ended the load, a diagnostic naming the
  entry is on the error stream; and when the load returns, the entry's name is the
  name of no workflow in the list or in any bucket, and the list holds the workflows of
  all the other valid entries.
\<close>

theorem load_workflows_drops_missing:
  assumes "load_toml fs mf = Inr (before @ entry # after)"
    and "declares_missing_file (is_file fs) (parent mf) entry"
  shows "snd (load_workflows fs mf) =
           snd (load_workflows (fs\<lparr>load_toml := (load_toml fs)(mf := Inr (before @ after))\<rparr>) mf)
       \<and> ((\<exists>r. snd (load_workflows (fs\<lparr>load_toml := (load_toml fs)(mf := Inr before)\<rparr>) mf) = Inr r)
            \<longrightarrow> (\<exists>e. Ignore_invalid_workflow (fst entry) e \<in> set (fst (load_workflows fs mf))))
       \<and> (\<forall>wfs idx.
            snd (load_workflows fs mf) = Inr (wfs, idx) \<and> distinct (map fst (before @ entry # after))
            \<longrightarrow> fst entry \<notin> wf_name ` set wfs
              \<and> (\<forall>(t, b) \<in> set idx. fst entry \<notin> wf_name ` set b)
              \<and> wfs = map (entry_workflow (parent mf))
                         (filter (entry_valid (is_file fs) (parent mf)) (before @ after)))"
proof (intro conjI allI impI)
  let ?isf = "is_file fs" and ?dir = "parent mf"
  obtain d r where b: "load_entries ?isf ?dir before [] [] [] = (d, r)"
    by (cases "load_entries ?isf ?dir before [] [] []")
  have full: "load_workflows fs mf = load_entries ?isf ?dir (before @ [entry] @ after) [] [] []"
    using assms(1) by (simp add: load_workflows_def)
  have less: "load_workflows (fs\<lparr>load_toml := (load_toml fs)(mf := Inr (before @ after))\<rparr>) mf =
              load_entries ?isf ?dir (before @ after) [] [] []"
    by (simp add: load_workflows_def)
  have pre: "load_workflows (fs\<lparr>load_toml := (load_toml fs)(mf := Inr before)\<rparr>) mf = (d, r)"
    by (simp add: load_workflows_def b)
  show "snd (load_workflows fs mf) =
        snd (load_workflows (fs\<lparr>load_toml := (load_toml fs)(mf := Inr (before @ after))\<rparr>) mf)"
  proof (cases r)
    case (Inl e)
    with b show ?thesis
      unfolding full less by (simp add: load_entries_append)
  next
    case (Inr p)
    obtain w1 i1 where p: "p = (w1, i1)" by (cases p)
    from load_entry_missing [OF assms(2), of w1 i1 d] obtain e where
      e: "load_entry ?isf ?dir entry w1 i1 d = (d @ [Ignore_invalid_workflow (fst entry) e], Inr (w1, i1))" ..
    have "snd (load_entries ?isf ?dir after w1 i1 (d @ [Ignore_invalid_workflow (fst entry) e])) =
          snd (load_entries ?isf ?dir after w1 i1 d)"
      using load_entries_stderr [of ?isf ?dir after w1 i1 "d @ [Ignore_invalid_workflow (fst entry) e]"]
        load_entries_stderr [of ?isf ?dir after w1 i1 d]
      by simp
    with b Inr p e show ?thesis
      unfolding full less by (simp add: load_entries_append)
  qed
  show "\<exists>e. Ignore_invalid_workflow (fst entry) e \<in> set (fst (load_workflows fs mf))"
    if "\<exists>r. snd (load_workflows (fs\<lparr>load_toml := (load_toml fs)(mf := Inr before)\<rparr>) mf) = Inr r"
  proof -
    from that pre obtain w1 i1 where r: "r = Inr (w1, i1)" by auto
    from load_entry_missing [OF assms(2), of w1 i1 d] obtain e where
      e: "load_entry ?isf ?dir entry w1 i1 d = (d @ [Ignore_invalid_workflow (fst entry) e], Inr (w1, i1))" ..
    have "fst (load_entries ?isf ?dir after w1 i1 (d @ [Ignore_invalid_workflow (fst entry) e])) =
          (d @ [Ignore_invalid_workflow (fst entry) e]) @ fst (load_entries ?isf ?dir after w1 i1 [])"
      using load_entries_stderr [of ?isf ?dir after w1 i1 "d @ [Ignore_invalid_workflow (fst entry) e]"]
      by simp
    with b r e have "Ignore_invalid_workflow (fst entry) e \<in> set (fst (load_workflows fs mf))"
      unfolding full by (simp add: load_entries_append)
    then show ?thesis ..
  qed
next
  fix wfs idx
  assume a: "snd (load_workflows fs mf) = Inr (wfs, idx) \<and> distinct (map fst (before @ entry # after))"
  let ?valid = "entry_valid (is_file fs) (parent mf)"
  note nv = missing_not_valid [OF assms(2)]
  from load_workflows_Inr [OF assms(1)] a
  have wfs: "wfs = map (entry_workflow (parent mf)) (filter ?valid (before @ entry # after))"
    and idx: "idx = index_workflows wfs []"
    by simp_all
  from wfs nv show w2: "wfs = map (entry_workflow (parent mf)) (filter ?valid (before @ after))"
    by simp
  have "wf_name ` set wfs \<subseteq> fst ` set (before @ after)"
    unfolding w2 by (force simp: image_iff)
  moreover have "fst entry \<notin> fst ` set (before @ after)"
    using a by auto
  ultimately show n: "fst entry \<notin> wf_name ` set wfs"
    by blast
  show "\<forall>(t, b) \<in> set idx. fst entry \<notin> wf_name ` set b"
    using n index_bucket_subset [of _ _ wfs] unfolding idx by blast
qed

theorem load_workflows_drops_missing_witness:
  "load_toml test_fs manifest_path = Inr ([flake8_entry] @ missing_entry # [fixup_entry])
   \<and> declares_missing_file (is_file test_fs) (parent manifest_path) missing_entry
   \<and> snd (load_workflows test_fs manifest_path) = Inr ([python_flake8, git_fixup], test_index)
   \<and> snd (load_workflows test_fs manifest_path) =
       snd (load_workflows (fs_with [flake8_entry, fixup_entry]) manifest_path)
   \<and> (\<exists>e. Ignore_invalid_workflow ''doesnotexist'' e
             \<in> set (fst (load_workflows test_fs manifest_path)))
   \<and> distinct (map fst ([flake8_entry] @ missing_entry # [fixup_entry]))
   \<and> ''doesnotexist'' \<notin> wf_name ` set [python_flake8, git_fixup]
   \<and> ''doesnotexist'' \<notin> wf_name ` set [python_flake8]
   \<and> ''doesnotexist'' \<notin> wf_name ` set [git_fixup]"
proof -
  have h1: "load_toml test_fs manifest_path = Inr ([flake8_entry] @ missing_entry # [fixup_entry])"
    by (simp add: test_fs_def fs_with_def test_manifest_def)
  have h2: "declares_missing_file (is_file test_fs) (parent manifest_path) missing_entry"
    by (simp add: declares_missing_file_def missing_def loader_eval example_defs path_eval)
  note T = load_workflows_drops_missing [OF h1 h2]
  have less: "test_fs\<lparr>load_toml := (load_toml test_fs)(manifest_path := Inr ([flake8_entry] @ [fixup_entry]))\<rparr>
              = fs_with [flake8_entry, fixup_entry]"
    by (auto simp: test_fs_def fs_with_def)
  have pre: "snd (load_workflows (test_fs\<lparr>load_toml := (load_toml test_fs)(manifest_path := Inr [flake8_entry])\<rparr>)
               manifest_path) = Inr ([python_flake8], [(TString ''python'', [python_flake8])])"
    by (simp add: loader_eval example_defs path_eval)
  have d: "distinct (map fst ([flake8_entry] @ missing_entry # [fixup_entry]))"
    by (simp add: flake8_entry_def missing_entry_def fixup_entry_def)
  have c1: "snd (load_workflows test_fs manifest_path) =
            snd (load_workflows (fs_with [flake8_entry, fixup_entry]) manifest_path)"
    using T [THEN conjunct1] unfolding less .
  have c2: "\<exists>e. Ignore_invalid_workflow (fst missing_entry) e
                  \<in> set (fst (load_workflows test_fs manifest_path))"
    using T [THEN conjunct2, THEN conjunct1] pre by blast
  have hy: "snd (load_workflows test_fs manifest_path) = Inr ([python_flake8, git_fixup], test_index)
            \<and> distinct (map fst ([flake8_entry] @ missing_entry # [fixup_entry]))"
    using d by (simp add: test_load)
  note c3 = T [THEN conjunct2, THEN conjunct2, rule_format, OF hy]
  have n: "fst missing_entry = ''doesnotexist''"
    by (simp add: missing_entry_def)
  show ?thesis
    using h1 h2 c1 c2 c3 [THEN conjunct1] c3 [THEN conjunct2, THEN conjunct1] d unfolding n
    by (simp add: test_load)
qed

text \<open>
  Claim C7. When the load returns, the list of workflows is made of the valid entries of
  the manifest in the manifest's order, and the bucket of every tag of the index holds
  the workflows of the list that carry the tag, in the order of the list; a workflow
  stands in the bucket once for each time its tag list names the tag, so that for
  workflows whose tag lists have no repetition the bucket is the sublist of the
  workflows carrying the tag. No tag is a key twice, and the keys are the tags of the
  workflows of the list.
\<close>

theorem load_workflows_order:
  assumes "load_toml fs mf = Inr manifest"
    and "snd (load_workflows fs mf) = Inr (wfs, idx)"
  shows "wfs = map (entry_workflow (parent mf))
                 (filter (entry_valid (is_file fs) (parent mf)) manifest)
       \<and> map wf_name wfs = map fst (filter (entry_valid (is_file fs) (parent mf)) manifest)
       \<and> (\<forall>(t, b) \<in> set idx.
            b = concat (map (\<lambda>wflow. replicate (count_list (wf_languages wflow) t) wflow) wfs))
       \<and> ((\<forall>wflow \<in> set wfs. distinct (wf_languages wflow))
            \<longrightarrow> (\<forall>(t, b) \<in> set idx. b = filter (\<lambda>wflow. t \<in> set (wf_languages wflow)) wfs))
       \<and> distinct (map fst idx)
       \<and> fst ` set idx = (\<Union>wflow \<in> set wfs. set (wf_languages wflow))"
proof -
  note r = load_workflows_Inr [OF assms]
  have names: "map wf_name wfs = map fst (filter (entry_valid (is_file fs) (parent mf)) manifest)"
    unfolding r(1) by (simp add: comp_def)
  have dist: "distinct (map fst idx)"
    unfolding r(2) by (simp add: distinct_index_workflows)
  have bucket: "b = concat (map (\<lambda>wflow. replicate (count_list (wf_languages wflow) t) wflow) wfs)"
    if "(t, b) \<in> set idx" for t b
  proof -
    have "b = bucket_of idx t"
      using bucket_of_member [OF dist that] by simp
    also have "\<dots> = bucket_of [] t @
        concat (map (\<lambda>wflow. replicate (count_list (wf_languages wflow) t) wflow) wfs)"
      unfolding r(2) by (simp only: bucket_of_index_workflows [symmetric] r(2) [symmetric])
    finally show ?thesis by (simp add: bucket_of_def)
  qed
  have keys: "fst ` set idx = (\<Union>wflow \<in> set wfs. set (wf_languages wflow))"
    using keys_index_workflows [of wfs "[]"] r(2) by simp
  have sub: "\<forall>(t, b) \<in> set idx. b = filter (\<lambda>wflow. t \<in> set (wf_languages wflow)) wfs"
    if "\<forall>wflow \<in> set wfs. distinct (wf_languages wflow)"
    using bucket replicate_count_filter [OF that] by auto
  from r(1) names bucket sub dist keys show ?thesis
    by blast
qed

theorem load_workflows_order_witness:
  "load_toml test_fs manifest_path = Inr test_manifest
   \<and> snd (load_workflows test_fs manifest_path) = Inr ([python_flake8, git_fixup], test_index)
   \<and> [python_flake8, git_fixup] =
       map (entry_workflow (parent manifest_path))
         (filter (entry_valid (is_file test_fs) (parent manifest_path)) test_manifest)
   \<and> map wf_name [python_flake8, git_fixup] =
       map fst (filter (entry_valid (is_file test_fs) (parent manifest_path)) test_manifest)
   \<and> distinct (wf_languages python_flake8) \<and> distinct (wf_languages git_fixup)
   \<and> [python_flake8] =
       filter (\<lambda>wflow. TString ''python'' \<in> set (wf_languages wflow)) [python_flake8, git_fixup]
   \<and> [git_fixup] =
       filter (\<lambda>wflow. TString ''*'' \<in> set (wf_languages wflow)) [python_flake8, git_fixup]
   \<and> distinct (map fst test_index)"
proof -
  have h1: "load_toml test_fs manifest_path = Inr test_manifest"
    by (simp add: test_fs_def fs_with_def)
  have h2: "snd (load_workflows test_fs manifest_path) = Inr ([python_flake8, git_fixup], test_index)"
    by (simp add: test_load)
  note T = load_workflows_order [OF h1 h2]
  have d: "\<forall>wflow \<in> set [python_flake8, git_fixup]. distinct (wf_languages wflow)"
    by (simp add: example_defs)
  note B = T [THEN conjunct2, THEN conjunct2, THEN conjunct2, THEN conjunct1, THEN mp, OF d]
  have b1: "[python_flake8] =
       filter (\<lambda>wflow. TString ''python'' \<in> set (wf_languages wflow)) [python_flake8, git_fixup]"
    using B [THEN bspec, of "(TString ''python'', [python_flake8])"] by (simp add: test_index_def)
  have b2: "[git_fixup] =
       filter (\<lambda>wflow. TString ''*'' \<in> set (wf_languages wflow)) [python_flake8, git_fixup]"
    using B [THEN bspec, of "(TString ''*'', [git_fixup])"] by (simp add: test_index_def)
  have d1: "distinct (wf_languages python_flake8)" and d2: "distinct (wf_languages git_fixup)"
    by (simp_all add: example_defs)
  note t1 = T [THEN conjunct1] and t2 = T [THEN conjunct2, THEN conjunct1]
    and t5 = T [THEN conjunct2, THEN conjunct2, THEN conjunct2, THEN conjunct2, THEN conjunct1]
  show ?thesis
    by (intro conjI) (rule h1 h2 t1 t2 d1 d2 b1 b2 t5)+
qed

lemma load_workflows_KeyError:
  assumes "load_toml fs mf = Inr (before @ (nm, TTable tbl) # after)"
    and "map_of tbl ''file'' = None"
    and "load_entries (is_file fs) (parent mf) before [] [] [] = (err, Inr r)"
  shows "load_workflows fs mf = (err, Inl (KeyError ''file''))"
  using assms
  by (cases r) (simp add: load_workflows_def load_entries_append load_entry_def Let_def)

text \<open>
  Claim C4. An entry whose table has no key \<open>file\<close> is not handled on its own: reading
  \<open>info["file"]\<close> raises \<open>KeyError\<close> before the \<open>try\<close> block is entered, and the whole load
  ends with that exception. A manifest with the one valid entry \<open>git_fixup\<close> loads; the same
  manifest with an entry without \<open>file\<close> after or before it returns no workflow at all.
\<close>

theorem load_workflows_no_file_key:
  "load_workflows (fs_with [fixup_entry]) manifest_path =
     ([], Inr ([git_fixup], [(TString ''*'', [git_fixup])]))
   \<and> load_workflows (fs_with [fixup_entry, no_file_entry]) manifest_path =
     ([], Inl (KeyError ''file''))
   \<and> load_workflows (fs_with [no_file_entry, fixup_entry]) manifest_path =
     ([], Inl (KeyError ''file''))"
  by (simp add: loader_eval no_file_entry_def example_defs path_eval)

section \<open>Properties of the scanner\<close>

lemma check_file_eq:
  "check_file file snapshot cl det =
     (filter (\<lambda>(k, v). k \<notin> set (hits file snapshot)) cl, det @ hits file snapshot)"
proof (induction snapshot arbitrary: cl det)
  case Nil
  show ?case by (simp add: hits_def)
next
  case (Cons item snapshot)
  obtain lang exts where item: "item = (lang, exts)" by (cases item)
  show ?case
    unfolding item
    by (simp add: Cons.IH hits_def case_prod_unfold)
qed

lemma set_hits:
  "set (hits fl cl) = {k. \<exists>exts. (k, exts) \<in> set cl \<and> suffix fl \<in> set exts}"
  by (auto simp: hits_def image_iff)

lemma distinct_hits: "distinct (map fst cl) \<Longrightarrow> distinct (hits fl cl)"
  by (simp add: hits_def distinct_map_filter)

lemma set_scan_files:
  "set (scan_files files cl det) =
     set det \<union> {k. \<exists>exts f. (k, exts) \<in> set cl \<and> f \<in> set files \<and> suffix f \<in> set exts}"
proof (induction files arbitrary: cl det)
  case Nil
  show ?case by simp
next
  case (Cons fl files)
  show ?case
  proof (cases "cl = []")
    case True
    then show ?thesis by simp
  next
    case False
    let ?cl' = "filter (\<lambda>(k, v). k \<notin> set (hits fl cl)) cl"
    have "set (scan_files (fl # files) cl det) = set (scan_files files ?cl' (det @ hits fl cl))"
      using False by (simp add: check_file_eq)
    also have "\<dots> = set det \<union> set (hits fl cl) \<union>
        {k. \<exists>exts f. (k, exts) \<in> set ?cl' \<and> f \<in> set files \<and> suffix f \<in> set exts}"
      by (simp add: Cons.IH)
    also have "\<dots> = set det \<union>
        {k. \<exists>exts f. (k, exts) \<in> set cl \<and> f \<in> set (fl # files) \<and> suffix f \<in> set exts}"
      unfolding set_hits by (simp add: set_eq_iff) blast
    finally show ?thesis .
  qed
qed

lemma distinct_scan_files:
  assumes "distinct det" "distinct (map fst cl)" "set det \<inter> fst ` set cl = {}"
  shows "distinct (scan_files files cl det)"
  using assms
proof (induction files arbitrary: cl det)
  case Nil
  then show ?case by simp
next
  case (Cons fl files)
  show ?case
  proof (cases "cl = []")
    case True
    with Cons.prems show ?thesis by simp
  next
    case False
    let ?cl' = "filter (\<lambda>(k, v). k \<notin> set (hits fl cl)) cl"
    have sub: "set (hits fl cl) \<subseteq> fst ` set cl"
      by (auto simp: hits_def)
    have 1: "distinct (det @ hits fl cl)"
      using Cons.prems sub by (auto simp: distinct_hits)
    have 2: "distinct (map fst ?cl')"
      using Cons.prems(2) by (simp add: distinct_map_filter)
    have 3: "set (det @ hits fl cl) \<inter> fst ` set ?cl' = {}"
      using Cons.prems(3) by auto
    show ?thesis
      using False Cons.IH [OF 1 2 3] by (simp add: check_file_eq)
  qed
qed

lemma child_extend: "child p nm = extend p [nm]"
  by (simp add: child_def extend_def)

lemma extend_extend: "extend (extend p ms) ns = extend p (ms @ ns)"
  by (simp add: extend_def)

lemma subdirs_reaches:
  "(q, sub) \<in> set (subdirs_node p nm e) \<Longrightarrow>
     \<exists>ns. q = extend p (nm # ns) \<and>
          (ns = [] \<and> e = Dir sub \<or> (\<exists>es. e = Dir es \<and> reaches es ns (Dir sub)))"
  "(q, sub) \<in> set (subdirs p es) \<Longrightarrow> \<exists>ns. q = extend p ns \<and> reaches es ns (Dir sub)"
proof (induction p nm e and p es arbitrary: q sub and q sub rule: subdirs_node_subdirs.induct)
  case (1 p nm es)
  from "1.prems" consider "q = child p nm" "sub = es" | "(q, sub) \<in> set (subdirs (child p nm) es)"
    by auto
  then show ?case
  proof cases
    case 1
    then show ?thesis by (auto simp: child_extend)
  next
    case 2
    from "1.IH" [OF 2] obtain ns where "q = extend (child p nm) ns" "reaches es ns (Dir sub)"
      by blast
    then show ?thesis by (auto simp: child_extend extend_extend)
  qed
next
  case (2 p nm)
  then show ?case by simp
next
  case (3 p nm)
  then show ?case by simp
next
  case (4 p nm es)
  then show ?case by simp
next
  case (5 p)
  then show ?case by simp
next
  case (6 p nm e rest)
  from "6.prems" consider "(q, sub) \<in> set (subdirs_node p nm e)" | "(q, sub) \<in> set (subdirs p rest)"
    by auto
  then show ?case
  proof cases
    case 1
    from "6.IH"(1) [OF 1] obtain ns where q: "q = extend p (nm # ns)"
      and d: "ns = [] \<and> e = Dir sub \<or> (\<exists>es. e = Dir es \<and> reaches es ns (Dir sub))"
      by blast
    from d have "reaches ((nm, e) # rest) (nm # ns) (Dir sub)"
      by (auto intro: reaches.intros)
    with q show ?thesis by blast
  next
    case 2
    from "6.IH"(2) [OF 2] obtain ns where q: "q = extend p ns" and r: "reaches rest ns (Dir sub)"
      by blast
    from r have "reaches ((nm, e) # rest) ns (Dir sub)"
      by (cases rule: reaches.cases) (auto intro: reaches.intros)
    with q show ?thesis by blast
  qed
qed

lemma subdirs_node_subset:
  "(nm, e) \<in> set es \<Longrightarrow> set (subdirs_node p nm e) \<subseteq> set (subdirs p es)"
  by (induction es) auto

lemma reaches_subdirs:
  "reaches es ns e \<Longrightarrow> e = Dir sub \<Longrightarrow> (extend p ns, sub) \<in> set (subdirs p es)"
proof (induction arbitrary: p rule: reaches.induct)
  case (here nm e es)
  then have "(extend p [nm], sub) \<in> set (subdirs_node p nm e)"
    by (simp add: child_extend)
  with subdirs_node_subset [OF here.hyps] show ?case by blast
next
  case (below nm sub' es ns e)
  from below.IH [OF below.prems, of "child p nm"]
  have "(extend p (nm # ns), sub) \<in> set (subdirs_node p nm (Dir sub'))"
    by (simp add: child_extend extend_extend)
  with subdirs_node_subset [OF below.hyps(1)] show ?case by blast
qed

lemma set_subdirs:
  "set (subdirs p es) = {(extend p ns, sub) | ns sub. reaches es ns (Dir sub)}"
  using subdirs_reaches(2) [of _ _ p es] reaches_subdirs [of es _ _ _ p]
  by (auto 4 3)

lemma reaches_snoc:
  "reaches es ns d \<Longrightarrow> d = Dir sub \<Longrightarrow> (nm, e) \<in> set sub \<Longrightarrow> reaches es (ns @ [nm]) e"
  by (induction rule: reaches.induct) (auto intro: reaches.intros)

lemma reaches_last:
  "reaches es ns e \<Longrightarrow>
     (\<exists>nm. ns = [nm] \<and> (nm, e) \<in> set es) \<or>
     (\<exists>ms nm sub. ns = ms @ [nm] \<and> reaches es ms (Dir sub) \<and> (nm, e) \<in> set sub)"
proof (induction rule: reaches.induct)
  case (here nm e es)
  then show ?case by simp
next
  case (below nm sub es ns e)
  from below.IH show ?case
  proof
    assume "\<exists>nm'. ns = [nm'] \<and> (nm', e) \<in> set sub"
    then obtain nm' where "ns = [nm']" "(nm', e) \<in> set sub" by blast
    moreover have "reaches es [nm] (Dir sub)"
      using below.hyps(1) by (rule reaches.here)
    ultimately have "nm # ns = [nm] @ [nm'] \<and> reaches es [nm] (Dir sub) \<and> (nm', e) \<in> set sub"
      by simp
    then show ?thesis by blast
  next
    assume "\<exists>ms nm' sub'. ns = ms @ [nm'] \<and> reaches sub ms (Dir sub') \<and> (nm', e) \<in> set sub'"
    then obtain ms nm' sub' where "ns = ms @ [nm']" "reaches sub ms (Dir sub')" "(nm', e) \<in> set sub'"
      by blast
    moreover from this have "reaches es (nm # ms) (Dir sub')"
      using below.hyps(1) by (auto intro: reaches.below)
    ultimately have "nm # ns = (nm # ms) @ [nm'] \<and> reaches es (nm # ms) (Dir sub') \<and>
        (nm', e) \<in> set sub'"
      by simp
    then show ?thesis by blast
  qed
qed

lemma set_rglob:
  "set (rglob p es) = {(extend p ns, e) | ns e. reaches es ns e}"
proof (intro set_eqI iffI)
  fix x
  assume "x \<in> set (rglob p es)"
  then obtain d des nm e where x: "x = (child d nm, e)" and ne: "(nm, e) \<in> set des"
    and d: "(d, des) = (p, es) \<or> (d, des) \<in> set (subdirs p es)"
    by (auto simp: rglob_def iterdir_def)
  from d show "x \<in> {(extend p ns, e) | ns e. reaches es ns e}"
  proof
    assume "(d, des) = (p, es)"
    with x ne have "x = (extend p [nm], e)" "reaches es [nm] e"
      by (auto simp: child_extend intro: reaches.here)
    then show ?thesis by blast
  next
    assume "(d, des) \<in> set (subdirs p es)"
    then obtain ns where "d = extend p ns" "reaches es ns (Dir des)"
      unfolding set_subdirs by blast
    with x ne have "x = (extend p (ns @ [nm]), e)" "reaches es (ns @ [nm]) e"
      by (auto simp: child_extend extend_extend intro: reaches_snoc)
    then show ?thesis by blast
  qed
next
  fix x
  assume "x \<in> {(extend p ns, e) | ns e. reaches es ns e}"
  then obtain ns e where x: "x = (extend p ns, e)" and r: "reaches es ns e"
    by blast
  from reaches_last [OF r] show "x \<in> set (rglob p es)"
  proof
    assume "\<exists>nm. ns = [nm] \<and> (nm, e) \<in> set es"
    then obtain nm where "ns = [nm]" "(nm, e) \<in> set es" by blast
    with x show ?thesis
      by (force simp: rglob_def iterdir_def child_extend)
  next
    assume "\<exists>ms nm sub. ns = ms @ [nm] \<and> reaches es ms (Dir sub) \<and> (nm, e) \<in> set sub"
    then obtain ms nm sub where ns: "ns = ms @ [nm]" and ms: "reaches es ms (Dir sub)"
      and ne: "(nm, e) \<in> set sub"
      by blast
    from ms have "(extend p ms, sub) \<in> set (subdirs p es)"
      unfolding set_subdirs by blast
    moreover from ne have "(child (extend p ms) nm, e) \<in> set (iterdir (extend p ms) sub)"
      by (force simp: iterdir_def)
    ultimately have "(child (extend p ms) nm, e) \<in> set (rglob p es)"
      unfolding rglob_def by (auto intro!: bexI [where x = "(extend p ms, sub)"])
    with x ns show ?thesis
      by (simp add: child_extend extend_extend)
  qed
qed

lemma reaches_nonempty: "reaches es ns e \<Longrightarrow> ns \<noteq> []"
  by (induction rule: reaches.induct) auto

lemma name_extend: "ns \<noteq> [] \<Longrightarrow> name (extend p ns) = last ns"
  by (simp add: name_def extend_def)

lemma set_regular_files:
  "set (regular_files (rglob p es)) = {extend p ns | ns. reaches es ns File}"
  unfolding regular_files_def
  by (auto simp: set_rglob image_iff)

lemma distinct_LANGUAGES: "distinct (map fst LANGUAGES)"
  by (simp add: LANGUAGES_def)

lemma set_determine_language:
  "set (determine_language dir es) =
     {lang. \<exists>exts ns. (lang, exts) \<in> set LANGUAGES \<and> reaches es ns File \<and>
                      suffix_of (last ns) \<in> set exts}"
proof -
  have "suffix (extend dir ns) = suffix_of (last ns)" if "reaches es ns File" for ns
    using reaches_nonempty [OF that] by (simp add: suffix_def name_extend)
  then show ?thesis
    unfolding determine_language_def set_scan_files set_regular_files
    by (simp add: set_eq_iff) metis
qed

lemmas scan_eval =
  determine_language_def rglob_def iterdir_def regular_files_def LANGUAGES_def
  find_existing_workflows_def find_repositories_def

lemma test_languages:
  "determine_language (pkg ''py_cpp_pkg'') py_cpp_entries = [''python'', ''c++'']"
  "determine_language (pkg ''py_cpp_pkg'') (rev py_cpp_entries) = [''c++'', ''python'']"
  "determine_language (pkg ''py_pkg'') py_entries = [''python'']"
  "determine_language (pkg ''empty_pkg'') [] = []"
  by (simp_all add: scan_eval py_cpp_entries_def py_entries_def pkg_def path_eval)

lemma reaches_under:
  "reaches es ns e \<Longrightarrow> under es ns e"
  by (induction rule: reaches.induct) (auto intro: under.intros)

lemma link_free_member:
  "link_free es \<Longrightarrow> (nm, e) \<in> set es \<Longrightarrow> link_free_node e"
  by (induction es) auto

lemma under_reaches:
  "under es ns e \<Longrightarrow> link_free es \<Longrightarrow> reaches es ns e"
proof (induction rule: under.induct)
  case (entry nm e es)
  then show ?case by (auto intro: reaches.here)
next
  case (in_dir nm sub es ns e)
  from in_dir.prems in_dir.hyps(1) have "link_free sub"
    using link_free_member [of es nm "Dir sub"] by simp
  with in_dir show ?case by (auto intro: reaches.below)
next
  case (in_link nm sub es ns e)
  from in_link.prems in_link.hyps(1) show ?case
    using link_free_member [of es nm "Dir_link sub"] by simp
qed

lemma tags_subset:
  "{lang. \<exists>exts ns. (lang, exts) \<in> set LANGUAGES \<and> reaches es ns File \<and>
                     suffix_of (last ns) \<in> set exts}
   \<subseteq> {lang. \<exists>exts ns. (lang, exts) \<in> set LANGUAGES \<and> under es ns File \<and>
                     suffix_of (last ns) \<in> set exts}"
  using reaches_under by blast

lemma tags_link_free:
  assumes "link_free es"
  shows "{lang. \<exists>exts ns. (lang, exts) \<in> set LANGUAGES \<and> reaches es ns File \<and>
                     suffix_of (last ns) \<in> set exts}
   = {lang. \<exists>exts ns. (lang, exts) \<in> set LANGUAGES \<and> under es ns File \<and>
                     suffix_of (last ns) \<in> set exts}"
  using reaches_under under_reaches [OF _ assms] by blast

text \<open>
  Claim C5, as stated, fails. The directory \<open>link_entries\<close> holds the file \<open>notes.md\<close>
  and a symbolic link \<open>link\<close> to a directory that holds \<open>a.py\<close>. The file \<open>link/a.py\<close>
  is under the directory and \<open>.py\<close> is an extension of the tag \<open>python\<close>, yet
  \<open>determine_language\<close> returns the tag \<open>markdown\<close> alone: the walk lists the link
  without entering it.
\<close>

theorem determine_language_link_counterexample:
  "under link_entries [''link'', ''a.py''] File
   \<and> (''python'', [''.py'']) \<in> set LANGUAGES
   \<and> suffix_of (last [''link'', ''a.py'']) \<in> set [''.py'']
   \<and> determine_language (pkg ''linked'') link_entries = [''markdown'']"
proof -
  have "under [(''a.py'', File)] [''a.py''] File"
    by (rule under.entry) simp
  then have u: "under link_entries [''link'', ''a.py''] File"
    by (rule under.in_link [rotated]) (simp add: link_entries_def)
  have l: "(''python'', [''.py'']) \<in> set LANGUAGES"
    by (simp add: LANGUAGES_def)
  have x: "suffix_of (last [''link'', ''a.py'']) \<in> set [''.py'']"
    by (simp add: suffix_of_def path_eval)
  have d: "determine_language (pkg ''linked'') link_entries = [''markdown'']"
    by (simp add: scan_eval link_entries_def pkg_def path_eval)
  show ?thesis
    by (intro conjI) (rule u l x d)+
qed

text \<open>
  Claim C5, amended. For every directory, \<open>determine_language\<close> returns a list without
  repetition whose elements are exactly the tags of \<open>LANGUAGES\<close> for which some regular
  file in the directory, or in a directory below it that is reached without passing
  through a symbolic link to a directory, has a suffix in the tag's list of extensions:
  the empty list when no such file has such a suffix, the list \<open>[L]\<close> when \<open>L\<close> is the
  only such tag. The set of tags found is the same for every order in which the files
  are enumerated. Every tag found has a file with one of its extensions under the
  directory, and when no link to a directory is under the directory the tags found are
  exactly the tags that have such a file anywhere under it.
\<close>

theorem determine_language_detects:
  "distinct (determine_language dir es)
   \<and> set (determine_language dir es) =
       {lang. \<exists>exts ns. (lang, exts) \<in> set LANGUAGES \<and> reaches es ns File \<and>
                        suffix_of (last ns) \<in> set exts}
   \<and> ((\<forall>lang exts ns. (lang, exts) \<in> set LANGUAGES \<and> reaches es ns File
                        \<longrightarrow> suffix_of (last ns) \<notin> set exts)
        \<longrightarrow> determine_language dir es = [])
   \<and> (\<forall>L. set (determine_language dir es) = {L} \<longrightarrow> determine_language dir es = [L])
   \<and> (\<forall>files. set files = set (regular_files (rglob dir es))
        \<longrightarrow> set (scan_files files LANGUAGES []) = set (determine_language dir es))
   \<and> set (determine_language dir es) \<subseteq>
       {lang. \<exists>exts ns. (lang, exts) \<in> set LANGUAGES \<and> under es ns File \<and>
                        suffix_of (last ns) \<in> set exts}
   \<and> (link_free es \<longrightarrow>
        set (determine_language dir es) =
          {lang. \<exists>exts ns. (lang, exts) \<in> set LANGUAGES \<and> under es ns File \<and>
                           suffix_of (last ns) \<in> set exts})"
proof (intro conjI allI impI)
  show d: "distinct (determine_language dir es)"
    unfolding determine_language_def
    by (rule distinct_scan_files) (simp_all add: distinct_LANGUAGES)
  show "set (determine_language dir es) =
       {lang. \<exists>exts ns. (lang, exts) \<in> set LANGUAGES \<and> reaches es ns File \<and>
                        suffix_of (last ns) \<in> set exts}"
    by (rule set_determine_language)
  show "determine_language dir es = []"
    if "\<forall>lang exts ns. (lang, exts) \<in> set LANGUAGES \<and> reaches es ns File
                        \<longrightarrow> suffix_of (last ns) \<notin> set exts"
  proof -
    from that have "set (determine_language dir es) = {}"
      unfolding set_determine_language by blast
    then show ?thesis by simp
  qed
  show "determine_language dir es = [L]" if "set (determine_language dir es) = {L}" for L
  proof -
    from d that have "length (determine_language dir es) = 1"
      using distinct_card [of "determine_language dir es"] by simp
    with that show ?thesis
      by (cases "determine_language dir es") auto
  qed
  show "set (scan_files files LANGUAGES []) = set (determine_language dir es)"
    if "set files = set (regular_files (rglob dir es))" for files
    using that unfolding determine_language_def set_scan_files by simp
  show "set (determine_language dir es) \<subseteq>
       {lang. \<exists>exts ns. (lang, exts) \<in> set LANGUAGES \<and> under es ns File \<and>
                        suffix_of (last ns) \<in> set exts}"
    unfolding set_determine_language by (rule tags_subset)
  show "set (determine_language dir es) =
          {lang. \<exists>exts ns. (lang, exts) \<in> set LANGUAGES \<and> under es ns File \<and>
                           suffix_of (last ns) \<in> set exts}"
    if "link_free es"
    unfolding set_determine_language by (rule tags_link_free [OF that])
qed

theorem determine_language_detects_witness:
  "determine_language (pkg ''py_cpp_pkg'') py_cpp_entries = [''python'', ''c++'']
   \<and> distinct [''python'', ''c++'']
   \<and> set (regular_files (rglob (pkg ''py_cpp_pkg'') (rev py_cpp_entries))) =
       set (regular_files (rglob (pkg ''py_cpp_pkg'') py_cpp_entries))
   \<and> scan_files (regular_files (rglob (pkg ''py_cpp_pkg'') (rev py_cpp_entries))) LANGUAGES [] =
       [''c++'', ''python'']
   \<and> set [''c++'', ''python''] = set (determine_language (pkg ''py_cpp_pkg'') py_cpp_entries)
   \<and> \<not> (\<exists>lang exts ns. (lang, exts) \<in> set LANGUAGES \<and> reaches [] ns File \<and>
                          suffix_of (last ns) \<in> set exts)
   \<and> determine_language (pkg ''empty_pkg'') [] = []
   \<and> set (determine_language (pkg ''py_pkg'') py_entries) = {''python''}
   \<and> determine_language (pkg ''py_pkg'') py_entries = [''python'']
   \<and> link_free py_entries
   \<and> {''python''} =
        {lang. \<exists>exts ns. (lang, exts) \<in> set LANGUAGES \<and> under py_entries ns File \<and>
                         suffix_of (last ns) \<in> set exts}"
proof -
  note T1 = determine_language_detects [of "pkg ''py_cpp_pkg''" py_cpp_entries]
  note T2 = determine_language_detects [of "pkg ''empty_pkg''" "[]"]
  note T3 = determine_language_detects [of "pkg ''py_pkg''" py_entries]
  have e1: "determine_language (pkg ''py_cpp_pkg'') py_cpp_entries = [''python'', ''c++'']"
    by (rule test_languages)
  have c1: "distinct [''python'', ''c++'']"
    using T1 [THEN conjunct1] unfolding e1 .
  have h2: "set (regular_files (rglob (pkg ''py_cpp_pkg'') (rev py_cpp_entries))) =
            set (regular_files (rglob (pkg ''py_cpp_pkg'') py_cpp_entries))"
    by (simp add: scan_eval py_cpp_entries_def) blast
  have e2: "scan_files (regular_files (rglob (pkg ''py_cpp_pkg'') (rev py_cpp_entries))) LANGUAGES [] =
            [''c++'', ''python'']"
    using test_languages(2) by (simp add: determine_language_def)
  have c2: "set [''c++'', ''python''] = set (determine_language (pkg ''py_cpp_pkg'') py_cpp_entries)"
    using T1 [THEN conjunct2, THEN conjunct2, THEN conjunct2, THEN conjunct2, THEN conjunct1,
              THEN spec, THEN mp, OF h2]
    unfolding e2 .
  have no: "\<not> reaches [] ns e" for ns e
    by (auto elim: reaches.cases)
  have h3: "\<forall>lang exts ns. (lang, exts) \<in> set LANGUAGES \<and> reaches [] ns File
              \<longrightarrow> suffix_of (last ns) \<notin> set exts"
    using no by blast
  have c3: "determine_language (pkg ''empty_pkg'') [] = []"
    using T2 [THEN conjunct2, THEN conjunct2, THEN conjunct1, THEN mp, OF h3] .
  have h4: "set (determine_language (pkg ''py_pkg'') py_entries) = {''python''}"
    by (simp add: test_languages)
  have c4: "determine_language (pkg ''py_pkg'') py_entries = [''python'']"
    using T3 [THEN conjunct2, THEN conjunct2, THEN conjunct2, THEN conjunct1, THEN spec, THEN mp, OF h4] .
  have h3': "\<not> (\<exists>lang exts ns. (lang, exts) \<in> set LANGUAGES \<and> reaches [] ns File \<and>
                          suffix_of (last ns) \<in> set exts)"
    using no by blast
  have h5: "link_free py_entries"
    by (simp add: py_entries_def)
  have c5: "{''python''} =
        {lang. \<exists>exts ns. (lang, exts) \<in> set LANGUAGES \<and> under py_entries ns File \<and>
                         suffix_of (last ns) \<in> set exts}"
    using T3 [THEN conjunct2, THEN conjunct2, THEN conjunct2, THEN conjunct2, THEN conjunct2,
              THEN conjunct2, THEN mp, OF h5]
    unfolding h4 .
  show ?thesis
    by (intro conjI) (rule e1 c1 h2 e2 c2 h3' c3 h4 c4 h5 c5)+
qed

lemma name_child [simp]: "name (child p nm) = nm"
  by (simp add: name_def child_def)

lemma suffix_child [simp]: "suffix (child p nm) = suffix_of nm"
  by (simp add: suffix_def)

lemma find_existing_workflows_eq:
  "find_existing_workflows repo_dir es =
     (case lookup es [''.github'', ''workflows''] of
        None \<Rightarrow> []
      | Some d \<Rightarrow>
          (case listing d of
             None \<Rightarrow> []
           | Some wes \<Rightarrow> [nm. (nm, e) \<leftarrow> wes, e = File \<and> suffix_of nm = ''.yml'']))"
proof -
  have "map (\<lambda>(f, e). name f)
          (filter (\<lambda>(f, e). e = File \<and> suffix f = ''.yml'') (iterdir p wes)) =
        [nm. (nm, e) \<leftarrow> wes, e = File \<and> suffix_of nm = ''.yml'']" for p wes
    by (induction wes) (auto simp: iterdir_def split: if_splits)
  then show ?thesis
    by (simp add: find_existing_workflows_def parse_WORKFLOW_PATH Let_def
        split: option.splits)
qed

lemma lookup_one:
  "lookup es [nm] = map_of es nm"
  by (simp split: option.splits node.splits)

lemma lookup_two:
  "lookup es [a, b] =
     (case map_of es a of
        None \<Rightarrow> None
      | Some g \<Rightarrow> (case listing g of None \<Rightarrow> None | Some ges \<Rightarrow> map_of ges b))"
  by (simp add: lookup_one split: option.splits node.splits)

lemma lookup_workflow_dir:
  "(\<exists>w. lookup es [''.github'', ''workflows''] = Some w \<and> listing w = Some wes) \<longleftrightarrow>
     (\<exists>g ges w. map_of es ''.github'' = Some g \<and> listing g = Some ges \<and>
                map_of ges ''workflows'' = Some w \<and> listing w = Some wes)"
  unfolding lookup_two by (auto split: option.splits)

text \<open>
  Claim C6. When \<open>.github/workflows\<close> below the repository is no directory (neither a
  directory nor a link to one, or not there), \<open>find_existing_workflows\<close> returns the
  empty list. Otherwise it returns, in the order of the listing, the names of the
  entries of that directory that are regular files with the suffix \<open>.yml\<close>: every name
  returned is such a file directly inside the directory, files with another suffix and
  subdirectories are left out, and nothing inside a subdirectory is looked at.
\<close>

theorem find_existing_workflows_lists:
  "((\<nexists>g ges w wes. map_of es ''.github'' = Some g \<and> listing g = Some ges \<and>
                      map_of ges ''workflows'' = Some w \<and> listing w = Some wes)
      \<longrightarrow> find_existing_workflows repo_dir es = [])
   \<and> (\<forall>g ges w wes.
        map_of es ''.github'' = Some g \<and> listing g = Some ges \<and>
        map_of ges ''workflows'' = Some w \<and> listing w = Some wes
        \<longrightarrow> find_existing_workflows repo_dir es =
              [nm. (nm, e) \<leftarrow> wes, e = File \<and> suffix_of nm = ''.yml'']
          \<and> set (find_existing_workflows repo_dir es) =
              {nm. (nm, File) \<in> set wes \<and> suffix_of nm = ''.yml''}
          \<and> (distinct (map fst wes)
               \<longrightarrow> (\<forall>nm e. (nm, e) \<in> set wes \<and> e \<noteq> File
                      \<longrightarrow> nm \<notin> set (find_existing_workflows repo_dir es))))"
proof (intro conjI allI impI)
  assume "\<nexists>g ges w wes. map_of es ''.github'' = Some g \<and> listing g = Some ges \<and>
                      map_of ges ''workflows'' = Some w \<and> listing w = Some wes"
  then have no: "\<not> (lookup es [''.github'', ''workflows''] = Some w \<and> listing w = Some wes)"
    for w wes
    using lookup_workflow_dir [of es wes] by blast
  show "find_existing_workflows repo_dir es = []"
  proof (cases "lookup es [''.github'', ''workflows'']")
    case None
    then show ?thesis unfolding find_existing_workflows_eq by simp
  next
    case (Some w)
    with no [of w] have "listing w = None"
      by (cases "listing w") auto
    with Some show ?thesis
      unfolding find_existing_workflows_eq by simp
  qed
next
  fix g ges w wes
  assume a: "map_of es ''.github'' = Some g \<and> listing g = Some ges \<and>
        map_of ges ''workflows'' = Some w \<and> listing w = Some wes"
  then have l: "lookup es [''.github'', ''workflows''] = Some w"
    unfolding lookup_two by simp
  show eq: "find_existing_workflows repo_dir es =
        [nm. (nm, e) \<leftarrow> wes, e = File \<and> suffix_of nm = ''.yml'']"
    unfolding find_existing_workflows_eq l using a by simp
  show s: "set (find_existing_workflows repo_dir es) =
        {nm. (nm, File) \<in> set wes \<and> suffix_of nm = ''.yml''}"
    unfolding eq by auto
  show "nm \<notin> set (find_existing_workflows repo_dir es)"
    if "distinct (map fst wes)" "(nm, e) \<in> set wes \<and> e \<noteq> File" for nm e
  proof
    assume "nm \<in> set (find_existing_workflows repo_dir es)"
    then have "(nm, File) \<in> set wes" unfolding s by simp
    with that show False
      by (metis eq_key_imp_eq_value)
  qed
qed

theorem find_existing_workflows_lists_witness:
  "\<not> (\<exists>g ges w wes. map_of ([] :: entries) ''.github'' = Some g \<and> listing g = Some ges \<and>
                    map_of ges ''workflows'' = Some w \<and> listing w = Some wes)
   \<and> find_existing_workflows (pkg ''empty_pkg'') [] = []
   \<and> map_of busy_entries ''.github'' = Some (Dir [(''workflows'', Dir_link wf_dir_entries)])
   \<and> listing (Dir [(''workflows'', Dir_link wf_dir_entries)]) =
       Some [(''workflows'', Dir_link wf_dir_entries)]
   \<and> map_of [(''workflows'', Dir_link wf_dir_entries)] ''workflows'' =
       Some (Dir_link wf_dir_entries)
   \<and> listing (Dir_link wf_dir_entries) = Some wf_dir_entries
   \<and> find_existing_workflows (pkg ''py_pkg'') busy_entries = [''exists1.yml'', ''exists2.yml'']
   \<and> distinct (map fst wf_dir_entries)
   \<and> (''archive.yml'', Dir [(''old.yml'', File)]) \<in> set wf_dir_entries
   \<and> ''archive.yml'' \<notin> set (find_existing_workflows (pkg ''py_pkg'') busy_entries)
   \<and> ''old.yml'' \<notin> set (find_existing_workflows (pkg ''py_pkg'') busy_entries)"
proof -
  note T0 = find_existing_workflows_lists [of "[]" "pkg ''empty_pkg''"]
  note T1 = find_existing_workflows_lists [of busy_entries "pkg ''py_pkg''"]
  have h0: "\<nexists>g ges w wes. map_of ([] :: entries) ''.github'' = Some g \<and> listing g = Some ges \<and>
                    map_of ges ''workflows'' = Some w \<and> listing w = Some wes"
    by simp
  have c0: "find_existing_workflows (pkg ''empty_pkg'') [] = []"
    using T0 [THEN conjunct1, THEN mp, OF h0] .
  have g: "map_of busy_entries ''.github'' = Some (Dir [(''workflows'', Dir_link wf_dir_entries)])"
    by (simp add: busy_entries_def)
  have lg: "listing (Dir [(''workflows'', Dir_link wf_dir_entries)]) =
            Some [(''workflows'', Dir_link wf_dir_entries)]"
    by simp
  have w: "map_of [(''workflows'', Dir_link wf_dir_entries)] ''workflows'' =
           Some (Dir_link wf_dir_entries)"
    by simp
  have lw: "listing (Dir_link wf_dir_entries) = Some wf_dir_entries"
    by simp
  have h1: "map_of busy_entries ''.github'' = Some (Dir [(''workflows'', Dir_link wf_dir_entries)]) \<and>
            listing (Dir [(''workflows'', Dir_link wf_dir_entries)]) =
              Some [(''workflows'', Dir_link wf_dir_entries)] \<and>
            map_of [(''workflows'', Dir_link wf_dir_entries)] ''workflows'' =
              Some (Dir_link wf_dir_entries) \<and>
            listing (Dir_link wf_dir_entries) = Some wf_dir_entries"
    using g by simp
  note C = T1 [THEN conjunct2, THEN spec, THEN spec, THEN spec, THEN spec, THEN mp, OF h1]
  have l: "[nm. (nm, e) \<leftarrow> wf_dir_entries, e = File \<and> suffix_of nm = ''.yml''] =
           [''exists1.yml'', ''exists2.yml'']"
    by (simp add: wf_dir_entries_def suffix_of_def)
  have c1: "find_existing_workflows (pkg ''py_pkg'') busy_entries = [''exists1.yml'', ''exists2.yml'']"
    using C [THEN conjunct1] unfolding l .
  have d: "distinct (map fst wf_dir_entries)"
    by (simp add: wf_dir_entries_def)
  have m: "(''archive.yml'', Dir [(''old.yml'', File)]) \<in> set wf_dir_entries"
    by (simp add: wf_dir_entries_def)
  have m': "(''archive.yml'', Dir [(''old.yml'', File)]) \<in> set wf_dir_entries \<and>
            Dir [(''old.yml'', File)] \<noteq> File"
    using m by simp
  have c2: "''archive.yml'' \<notin> set (find_existing_workflows (pkg ''py_pkg'') busy_entries)"
    using C [THEN conjunct2, THEN conjunct2, THEN mp, OF d, THEN spec, THEN spec, THEN mp, OF m'] .
  have c3: "''old.yml'' \<notin> set (find_existing_workflows (pkg ''py_pkg'') busy_entries)"
    unfolding C [THEN conjunct2, THEN conjunct1] by (simp add: wf_dir_entries_def)
  have h0': "\<not> (\<exists>g ges w wes. map_of ([] :: entries) ''.github'' = Some g \<and> listing g = Some ges \<and>
                    map_of ges ''workflows'' = Some w \<and> listing w = Some wes)"
    by simp
  show ?thesis
    by (intro conjI) (rule h0' c0 g lg w lw c1 d m c2 c3)+
qed

lemma repos_scan_eq:
  "repos_scan (iterdir base_dir es) ignore repos =
     repos @ [repository_of base_dir nm (contents e). (nm, e) \<leftarrow> es, is_dir e \<and> nm \<notin> set ignore]"
proof (induction es arbitrary: repos)
  case Nil
  show ?case by (simp add: iterdir_def)
next
  case (Cons x es)
  obtain nm e where x: "x = (nm, e)" by (cases x)
  have step: "iterdir base_dir ((nm, e) # es) = (child base_dir nm, e) # iterdir base_dir es"
    by (simp add: iterdir_def)
  show ?case
    unfolding x step
    by (cases "listing e") (simp_all add: Cons.IH repository_of_def is_dir_def contents_def)
qed

text \<open>
  Claim C8. On a base directory, \<open>find_repositories\<close> returns one record for each entry
  of the base that is a directory (or a link to one) and whose name is not on the ignore
  list, in the order of the listing, and nothing else: the paths of the records are
  those of these entries, there are as many records as such entries, the name of no
  record's directory is on the ignore list, and every record's directory is a directory
  entry of the base.
\<close>

theorem find_repositories_scans:
  assumes "listing at_base = Some es"
  shows "find_repositories base_dir (Some at_base) ignore =
     Inr [repository_of base_dir nm (contents e). (nm, e) \<leftarrow> es, is_dir e \<and> nm \<notin> set ignore]
   \<and> (\<forall>repos. find_repositories base_dir (Some at_base) ignore = Inr repos
        \<longrightarrow> map repo_path repos =
              [child base_dir nm. (nm, e) \<leftarrow> es, is_dir e \<and> nm \<notin> set ignore]
          \<and> length repos = length (filter (\<lambda>(nm, e). is_dir e \<and> nm \<notin> set ignore) es)
          \<and> (\<forall>repo \<in> set repos. name (repo_path repo) \<notin> set ignore)
          \<and> (\<forall>repo \<in> set repos. \<exists>e. (name (repo_path repo), e) \<in> set es \<and> is_dir e))"
proof (intro conjI allI impI)
  show eq: "find_repositories base_dir (Some at_base) ignore =
     Inr [repository_of base_dir nm (contents e). (nm, e) \<leftarrow> es, is_dir e \<and> nm \<notin> set ignore]"
    using assms by (simp add: find_repositories_def repos_scan_eq)
  fix repos
  assume "find_repositories base_dir (Some at_base) ignore = Inr repos"
  with eq have r: "repos =
      [repository_of base_dir nm (contents e). (nm, e) \<leftarrow> es, is_dir e \<and> nm \<notin> set ignore]"
    by simp
  show "map repo_path repos = [child base_dir nm. (nm, e) \<leftarrow> es, is_dir e \<and> nm \<notin> set ignore]"
    unfolding r
    by (induction es) (auto simp: repository_of_def)
  show "length repos = length (filter (\<lambda>(nm, e). is_dir e \<and> nm \<notin> set ignore) es)"
    unfolding r
    by (induction es) (auto split: if_splits)
  show "\<forall>repo \<in> set repos. name (repo_path repo) \<notin> set ignore"
    unfolding r by (auto simp: repository_of_def split: if_splits)
  show "\<forall>repo \<in> set repos. \<exists>e. (name (repo_path repo), e) \<in> set es \<and> is_dir e"
    unfolding r by (auto simp: repository_of_def split: if_splits)
qed

lemma test_repositories:
  "[repository_of tmp_path nm (contents e).
      (nm, e) \<leftarrow> (''README.md'', File) # (''linked_pkg'', Dir_link [(''main.cpp'', File)]) #
                 test_workspace,
      is_dir e \<and> nm \<notin> set [''py_cpp_pkg'', ''py_pkg'']] = [linked_pkg, empty_pkg, cpp_pkg]"
  by (simp add: test_workspace_def repository_of_def tmp_path_def scan_eval example_defs
      linked_pkg_def path_eval lookup.simps is_dir_def contents_def)

theorem find_repositories_scans_witness:
  "listing (Dir ((''README.md'', File) # (''linked_pkg'', Dir_link [(''main.cpp'', File)]) #
                 test_workspace)) =
     Some ((''README.md'', File) # (''linked_pkg'', Dir_link [(''main.cpp'', File)]) #
           test_workspace)
   \<and> find_repositories tmp_path
       (Some (Dir ((''README.md'', File) # (''linked_pkg'', Dir_link [(''main.cpp'', File)]) #
                   test_workspace)))
       [''py_cpp_pkg'', ''py_pkg''] = Inr [linked_pkg, empty_pkg, cpp_pkg]
   \<and> map repo_path [linked_pkg, empty_pkg, cpp_pkg] =
       [pkg ''linked_pkg'', pkg ''empty_pkg'', pkg ''cpp_pkg'']
   \<and> length [linked_pkg, empty_pkg, cpp_pkg] =
       length (filter (\<lambda>(nm, e). is_dir e \<and> nm \<notin> set [''py_cpp_pkg'', ''py_pkg''])
                 ((''README.md'', File) # (''linked_pkg'', Dir_link [(''main.cpp'', File)]) #
                  test_workspace))
   \<and> name (repo_path empty_pkg) \<notin> set [''py_cpp_pkg'', ''py_pkg'']
   \<and> name (repo_path cpp_pkg) \<notin> set [''py_cpp_pkg'', ''py_pkg'']"
proof -
  let ?es = "(''README.md'', File) # (''linked_pkg'', Dir_link [(''main.cpp'', File)]) #
             test_workspace"
  have h: "listing (Dir ?es) = Some ?es"
    by simp
  note T = find_repositories_scans [OF h, of tmp_path "[''py_cpp_pkg'', ''py_pkg'']"]
  have r: "find_repositories tmp_path (Some (Dir ?es)) [''py_cpp_pkg'', ''py_pkg''] =
           Inr [linked_pkg, empty_pkg, cpp_pkg]"
    using T [THEN conjunct1] unfolding test_repositories .
  note C = T [THEN conjunct2, THEN spec, THEN mp, OF r]
  have p: "[child tmp_path nm. (nm, e) \<leftarrow> ?es,
              is_dir e \<and> nm \<notin> set [''py_cpp_pkg'', ''py_pkg'']] =
           [pkg ''linked_pkg'', pkg ''empty_pkg'', pkg ''cpp_pkg'']"
    by (simp add: test_workspace_def tmp_path_def pkg_def child_def is_dir_def)
  have c1: "map repo_path [linked_pkg, empty_pkg, cpp_pkg] =
            [pkg ''linked_pkg'', pkg ''empty_pkg'', pkg ''cpp_pkg'']"
    using C [THEN conjunct1] unfolding p .
  note c2 = C [THEN conjunct2, THEN conjunct1]
  note B = C [THEN conjunct2, THEN conjunct2, THEN conjunct1]
  have c3: "name (repo_path empty_pkg) \<notin> set [''py_cpp_pkg'', ''py_pkg'']"
    using B [THEN bspec, of empty_pkg] by simp
  have c4: "name (repo_path cpp_pkg) \<notin> set [''py_cpp_pkg'', ''py_pkg'']"
    using B [THEN bspec, of cpp_pkg] by simp
  show ?thesis
    by (intro conjI) (rule h r c1 c2 c3 c4)+
qed

section \<open>Order and repetition of operations\<close>

lemma precedes_iff:
  "precedes xs a b \<longleftrightarrow> (\<exists>pre post. xs = pre @ a # post \<and> b \<in> set post)"
proof (induction xs)
  case Nil
  show ?case by simp
next
  case (Cons x xs)
  show ?case
  proof (cases "x = a")
    case True
    have "b \<in> set xs \<longleftrightarrow> (\<exists>pre post. a # xs = pre @ a # post \<and> b \<in> set post)"
    proof
      assume "b \<in> set xs"
      then have "a # xs = [] @ a # xs \<and> b \<in> set xs" by simp
      then show "\<exists>pre post. a # xs = pre @ a # post \<and> b \<in> set post" by blast
    next
      assume "\<exists>pre post. a # xs = pre @ a # post \<and> b \<in> set post"
      then obtain pre post where e: "a # xs = pre @ a # post" and b: "b \<in> set post" by blast
      then show "b \<in> set xs"
        by (cases pre) auto
    qed
    with True show ?thesis by simp
  next
    case False
    have "(\<exists>pre post. xs = pre @ a # post \<and> b \<in> set post) \<longleftrightarrow>
          (\<exists>pre post. x # xs = pre @ a # post \<and> b \<in> set post)"
    proof
      assume "\<exists>pre post. xs = pre @ a # post \<and> b \<in> set post"
      then obtain pre post where "xs = pre @ a # post" "b \<in> set post" by blast
      then have "x # xs = (x # pre) @ a # post \<and> b \<in> set post" by simp
      then show "\<exists>pre post. x # xs = pre @ a # post \<and> b \<in> set post" by blast
    next
      assume "\<exists>pre post. x # xs = pre @ a # post \<and> b \<in> set post"
      then obtain pre post where e: "x # xs = pre @ a # post" and b: "b \<in> set post" by blast
      with False obtain pre' where "pre = x # pre'"
        by (cases pre) auto
      with e b show "\<exists>pre post. xs = pre @ a # post \<and> b \<in> set post" by auto
    qed
    with False Cons.IH show ?thesis by simp
  qed
qed

lemma precedes_concat_map:
  assumes "precedes xs x y" "a \<in> set (g x)" "b \<in> set (g y)"
  shows "precedes (concat (map g xs)) a b"
proof -
  from assms(1) obtain pre post where xs: "xs = pre @ x # post" and y: "y \<in> set post"
    unfolding precedes_iff by blast
  from assms(2) obtain p q where gx: "g x = p @ a # q"
    by (auto dest: split_list)
  from y assms(3) have "b \<in> set (q @ concat (map g post))"
    by auto
  moreover have "concat (map g xs) = (concat (map g pre) @ p) @ a # (q @ concat (map g post))"
    by (simp add: xs gx)
  ultimately show ?thesis
    unfolding precedes_iff by blast
qed

lemma precedes_in_concat:
  assumes "x \<in> set xs" "precedes (g x) a b"
  shows "precedes (concat (map g xs)) a b"
proof -
  from assms(1) obtain pre post where xs: "xs = pre @ x # post"
    by (auto dest: split_list)
  from assms(2) obtain p q where gx: "g x = p @ a # q" and b: "b \<in> set q"
    unfolding precedes_iff by blast
  have "concat (map g xs) = (concat (map g pre) @ p) @ a # (q @ concat (map g post))"
    by (simp add: xs gx)
  moreover from b have "b \<in> set (q @ concat (map g post))"
    by simp
  ultimately show ?thesis
    unfolding precedes_iff by blast
qed

lemma precedes_nth:
  assumes "i < j" "j < length xs"
  shows "precedes xs (xs ! i) (xs ! j)"
proof -
  have "xs = take i xs @ xs ! i # drop (Suc i) xs"
    using assms by (simp add: id_take_nth_drop)
  moreover have "xs ! j \<in> set (drop (Suc i) xs)"
    using assms by (auto simp: in_set_conv_nth intro!: exI [where x = "j - Suc i"])
  ultimately show ?thesis
    unfolding precedes_iff by blast
qed

lemma precedes_in_set:
  "precedes xs a b \<Longrightarrow> a \<in> set xs \<and> b \<in> set xs"
  unfolding precedes_iff by auto

lemma precedes_filter:
  "precedes xs a b \<Longrightarrow> P a \<Longrightarrow> P b \<Longrightarrow> precedes (filter P xs) a b"
  by (induction xs) (auto split: if_splits)

lemma precedes_keys_items:
  assumes "distinct (map fst idx)" "precedes (map fst idx) t1 t2"
    and "(t1, b1) \<in> set idx" "(t2, b2) \<in> set idx"
  shows "precedes idx (t1, b1) (t2, b2)"
  using assms
proof (induction idx)
  case Nil
  then show ?case by simp
next
  case (Cons x idx)
  obtain k b where x: "x = (k, b)" by (cases x)
  show ?case
  proof (cases "k = t1")
    case True
    with Cons.prems x have b: "b = b1" and t2: "t2 \<in> fst ` set idx"
      by (auto simp: image_iff)
    from t2 Cons.prems(1,4) x True have "(t2, b2) \<in> set idx"
      by (auto simp: image_iff)
    with x True b show ?thesis by simp
  next
    case False
    with Cons.prems x have p: "precedes (map fst idx) t1 t2" and m1: "(t1, b1) \<in> set idx"
      by auto
    from precedes_in_set [OF p] have "t2 \<in> fst ` set idx" by simp
    with Cons.prems(1,4) x have m2: "(t2, b2) \<in> set idx"
      by (auto simp: image_iff)
    from Cons.prems(1) have "distinct (map fst idx)" by simp
    from Cons.IH [OF this p m1 m2] False x show ?thesis by simp
  qed
qed

lemma precedes_same_count:
  assumes "precedes xs a a"
  shows "2 \<le> count_list xs a"
proof -
  from assms obtain pre post where xs: "xs = pre @ a # post" and a: "a \<in> set post"
    unfolding precedes_iff by blast
  from a have "0 < count_list post a"
    using count_list_0_iff [of post a] by (cases "count_list post a") auto
  then show ?thesis
    unfolding xs by simp
qed

lemmas c3_defs =
  c3_manifest_def c3_fs_def c3_first_def c3_second_def c3_third_def c3_index_def

lemma c3_load:
  "load_workflows c3_fs manifest_path = ([], Inr ([c3_first, c3_second, c3_third], c3_index))"
  by (simp add: load_workflows_def load_entry_def entry_languages_def make_workflow_def Let_def
      manifest_path_def c3_defs example_defs path_eval)

lemma c3_operations:
  "determine_operations [empty_pkg, py_pkg] c3_index =
     [(child workflows_dir ''a.yml'', in_workflow_dir ''empty_pkg'' ''a.yml''),
      (child workflows_dir ''ci.yml'', in_workflow_dir ''empty_pkg'' ''ci.yml''),
      (child workflows_dir ''b.yml'', in_workflow_dir ''empty_pkg'' ''b.yml''),
      (child workflows_dir ''a.yml'', in_workflow_dir ''py_pkg'' ''a.yml''),
      (child workflows_dir ''ci.yml'', in_workflow_dir ''py_pkg'' ''ci.yml''),
      (child workflows_dir ''b.yml'', in_workflow_dir ''py_pkg'' ''b.yml''),
      (child workflows_dir ''ci.yml'', in_workflow_dir ''py_pkg'' ''ci.yml'')]"
  by (simp add: determine_operations_def relevant_def c3_defs example_defs path_eval)

lemma index_has_workflow:
  assumes "t \<in> set (wf_languages wflow)" "wflow \<in> set wfs"
  shows "\<exists>b. (t, b) \<in> set (index_workflows wfs []) \<and> wflow \<in> set b"
proof -
  have "t \<in> fst ` set (index_workflows wfs [])"
    using assms by (auto simp: keys_index_workflows)
  then obtain b where b: "(t, b) \<in> set (index_workflows wfs [])"
    by auto
  have "distinct (map fst (index_workflows wfs []))"
    by (simp add: distinct_index_workflows)
  from bucket_of_member [OF this b]
  have "b = bucket_of (index_workflows wfs []) t"
    by simp
  also have "\<dots> = concat (map (\<lambda>w. replicate (count_list (wf_languages w) t) w) wfs)"
    by (simp add: bucket_of_index_workflows) (simp add: bucket_of_def)
  finally have "wflow \<in> set b"
    using assms by (auto simp: count_list_0_iff)
  with b show ?thesis by blast
qed

lemma index_bucket_order:
  assumes "(t, b) \<in> set (index_workflows wfs [])"
    and "precedes wfs w1 w2"
    and "t \<in> set (wf_languages w1)" "t \<in> set (wf_languages w2)"
  shows "precedes b w1 w2"
proof -
  have "distinct (map fst (index_workflows wfs []))"
    by (simp add: distinct_index_workflows)
  from bucket_of_member [OF this assms(1)]
  have "b = bucket_of (index_workflows wfs []) t"
    by simp
  also have "\<dots> = concat (map (\<lambda>w. replicate (count_list (wf_languages w) t) w) wfs)"
    by (simp add: bucket_of_index_workflows) (simp add: bucket_of_def)
  finally have b: "b = concat (map (\<lambda>w. replicate (count_list (wf_languages w) t) w) wfs)" .
  show ?thesis
    unfolding b
    using assms(3,4) by (auto intro!: precedes_concat_map [OF assms(2)] simp: count_list_0_iff)
qed

lemma load_workflows_Inr_manifest:
  "snd (load_workflows fs mf) = Inr r \<Longrightarrow> \<exists>manifest. load_toml fs mf = Inr manifest"
  by (cases "load_toml fs mf") (simp_all add: load_workflows_def)

lemma precedes_total:
  assumes "x \<in> set xs" "y \<in> set xs" "x \<noteq> y"
  shows "precedes xs x y \<or> precedes xs y x"
proof -
  from assms(1) obtain pre post where xs: "xs = pre @ x # post"
    by (auto dest: split_list)
  with assms(2,3) have "y \<in> set pre \<or> y \<in> set post"
    by auto
  then show ?thesis
  proof
    assume "y \<in> set post"
    with xs show ?thesis unfolding precedes_iff by blast
  next
    assume "y \<in> set pre"
    then obtain p1 p2 where "pre = p1 @ y # p2"
      by (auto dest: split_list)
    with xs have "xs = p1 @ y # (p2 @ x # post) \<and> x \<in> set (p2 @ x # post)"
      by simp
    then show ?thesis unfolding precedes_iff by blast
  qed
qed

lemma entry_workflow_parent_dir [simp]: "wf_parent_dir (entry_workflow dir entry) = dir"
  by (simp add: entry_workflow_def make_workflow_def)

lemma same_destination_relative:
  assumes "root (parse_path f1) = []" "root (parse_path f2) = []"
    and "joinpath p f1 = joinpath p f2"
  shows "joinpath d f1 = joinpath d f2"
proof -
  from assms have "tail (parse_path f1) = tail (parse_path f2)"
    by (simp add: joinpath_relative)
  with assms(1,2) show ?thesis
    by (simp add: joinpath_relative)
qed

text \<open>
  Claim C3. For two workflows of a loaded manifest that both apply to a repository (each
  carries a tag that is a language of the repository or the wildcard), the operations of
  both are emitted for every file they declare. When two of their files, relative paths
  as the files of a workflow are, have the same destination, the two operations are the
  same pair and it occurs twice in the result: the operation of the workflow declared
  later stands after that of the workflow declared first. For any two of their files:
  when the two workflows are listed under a common tag that applies to the repository,
  an operation of the workflow declared first stands before an operation of the one
  declared later; and operations under a tag that became a key of the index earlier
  stand before operations under a tag that became a key later.
\<close>

theorem same_destination_order:
  assumes "snd (load_workflows fs mf) = Inr (wfs, idx)"
    and "i < j" "j < length wfs"
    and "f1 \<in> set (wf_files (wfs ! i))" "f2 \<in> set (wf_files (wfs ! j))"
    and "repo \<in> set repos"
    and "t1 \<in> set (wf_languages (wfs ! i))" "relevant repo t1"
    and "t2 \<in> set (wf_languages (wfs ! j))" "relevant repo t2"
  shows "operation_of repo (wfs ! i) f1 \<in> set (determine_operations repos idx)
       \<and> operation_of repo (wfs ! j) f2 \<in> set (determine_operations repos idx)
       \<and> (root (parse_path f1) = [] \<and> root (parse_path f2) = [] \<and>
          snd (operation_of repo (wfs ! i) f1) = snd (operation_of repo (wfs ! j) f2)
          \<longrightarrow> operation_of repo (wfs ! i) f1 = operation_of repo (wfs ! j) f2
            \<and> precedes (determine_operations repos idx)
                (operation_of repo (wfs ! i) f1) (operation_of repo (wfs ! j) f2)
            \<and> 2 \<le> count_list (determine_operations repos idx) (operation_of repo (wfs ! i) f1))
       \<and> (t1 = t2 \<longrightarrow>
            precedes (determine_operations repos idx)
              (operation_of repo (wfs ! i) f1) (operation_of repo (wfs ! j) f2))
       \<and> (precedes (map fst idx) t1 t2 \<longrightarrow>
            precedes (determine_operations repos idx)
              (operation_of repo (wfs ! i) f1) (operation_of repo (wfs ! j) f2))
       \<and> (precedes (map fst idx) t2 t1 \<longrightarrow>
            precedes (determine_operations repos idx)
              (operation_of repo (wfs ! j) f2) (operation_of repo (wfs ! i) f1))
       \<and> (t1 \<noteq> t2 \<longrightarrow> precedes (map fst idx) t1 t2 \<or> precedes (map fst idx) t2 t1)"
proof -
  let ?op1 = "operation_of repo (wfs ! i) f1" and ?op2 = "operation_of repo (wfs ! j) f2"
  let ?block = "\<lambda>(lang, bucket). concat (map (workflow_operations repo) bucket)"
  let ?items = "filter (\<lambda>(lang, bucket). relevant repo lang) idx"
  from load_workflows_Inr_manifest [OF assms(1)] obtain manifest
    where m: "load_toml fs mf = Inr manifest" ..
  note r = load_workflows_Inr [OF m assms(1)]
  have idx: "idx = index_workflows wfs []" by (rule r(2))
  have dk: "distinct (map fst idx)"
    unfolding idx by (simp add: distinct_index_workflows)
  have wi: "wfs ! i \<in> set wfs" and wj: "wfs ! j \<in> set wfs"
    using assms(2,3) by simp_all
  from index_has_workflow [OF assms(7) wi] obtain b1
    where b1: "(t1, b1) \<in> set idx" "wfs ! i \<in> set b1"
    unfolding idx by blast
  from index_has_workflow [OF assms(9) wj] obtain b2
    where b2: "(t2, b2) \<in> set idx" "wfs ! j \<in> set b2"
    unfolding idx by blast
  have in1: "?op1 \<in> set (?block (t1, b1))"
    using assms(4) b1(2) by (auto simp: workflow_operations_def)
  have in2: "?op2 \<in> set (?block (t2, b2))"
    using assms(5) b2(2) by (auto simp: workflow_operations_def)
  have it1: "(t1, b1) \<in> set ?items" and it2: "(t2, b2) \<in> set ?items"
    using b1(1) b2(1) assms(8,10) by simp_all
  have lift: "precedes (determine_operations repos idx) a b"
    if "precedes (concat (map ?block ?items)) a b" for a b
    unfolding determine_operations_concat
    using precedes_in_concat [of repo repos "\<lambda>repo. concat (map
        (\<lambda>(lang, bucket). concat (map (workflow_operations repo) bucket))
        (filter (\<lambda>(lang, bucket). relevant repo lang) idx))", OF assms(6) that] .
  have e1: "?op1 \<in> set (determine_operations repos idx)"
    unfolding set_determine_operations using assms(4,6,8) b1 by blast
  have e2: "?op2 \<in> set (determine_operations repos idx)"
    unfolding set_determine_operations using assms(5,6,10) b2 by blast
  have same: "precedes (determine_operations repos idx) ?op1 ?op2" if "t1 = t2"
  proof -
    have "precedes wfs (wfs ! i) (wfs ! j)"
      using assms(2,3) by (rule precedes_nth)
    with b1(1) assms(7,9) that have "precedes b1 (wfs ! i) (wfs ! j)"
      unfolding idx by (auto intro: index_bucket_order)
    then have "precedes (concat (map (workflow_operations repo) b1)) ?op1 ?op2"
      using assms(4,5) by (auto intro!: precedes_concat_map simp: workflow_operations_def)
    then have "precedes (?block (t1, b1)) ?op1 ?op2"
      by simp
    from precedes_in_concat [of "(t1, b1)" ?items ?block, OF it1 this]
    show ?thesis by (rule lift)
  qed
  have items12: "precedes (determine_operations repos idx) ?op1 ?op2"
    if "precedes ?items (t1, b1) (t2, b2)"
    using precedes_concat_map [of ?items "(t1, b1)" "(t2, b2)" ?op1 ?block ?op2, OF that in1 in2]
    by (rule lift)
  have items21: "precedes (determine_operations repos idx) ?op2 ?op1"
    if "precedes ?items (t2, b2) (t1, b1)"
    using precedes_concat_map [of ?items "(t2, b2)" "(t1, b1)" ?op2 ?block ?op1, OF that in2 in1]
    by (rule lift)
  have cross12: "precedes (determine_operations repos idx) ?op1 ?op2"
    if "precedes (map fst idx) t1 t2"
  proof -
    from precedes_keys_items [OF dk that b1(1) b2(1)]
    have "precedes idx (t1, b1) (t2, b2)" .
    then have "precedes ?items (t1, b1) (t2, b2)"
      using assms(8,10) by (intro precedes_filter) simp_all
    then show ?thesis by (rule items12)
  qed
  have cross21: "precedes (determine_operations repos idx) ?op2 ?op1"
    if "precedes (map fst idx) t2 t1"
  proof -
    from precedes_keys_items [OF dk that b2(1) b1(1)]
    have "precedes idx (t2, b2) (t1, b1)" .
    then have "precedes ?items (t2, b2) (t1, b1)"
      using assms(8,10) by (intro precedes_filter) simp_all
    then show ?thesis by (rule items21)
  qed
  have keys: "precedes (map fst idx) t1 t2 \<or> precedes (map fst idx) t2 t1" if "t1 \<noteq> t2"
  proof -
    from b1(1) b2(1) have "t1 \<in> set (map fst idx)" "t2 \<in> set (map fst idx)"
      by (auto simp: image_iff intro: bexI [where x = "(t1, b1)"] bexI [where x = "(t2, b2)"])
    from precedes_total [OF this that] show ?thesis .
  qed
  have rel: "?op1 = ?op2 \<and> precedes (determine_operations repos idx) ?op1 ?op2
             \<and> 2 \<le> count_list (determine_operations repos idx) ?op1"
    if a: "root (parse_path f1) = [] \<and> root (parse_path f2) = [] \<and> snd ?op1 = snd ?op2"
  proof -
    have pd: "wf_parent_dir w = parent mf" if "w \<in> set wfs" for w
    proof -
      from that have "w \<in> entry_workflow (parent mf) ` set manifest"
        by (subst (asm) r(1)) auto
      then show ?thesis by auto
    qed
    have d: "joinpath (joinpath (repo_path repo) WORKFLOW_PATH) f1 =
             joinpath (joinpath (repo_path repo) WORKFLOW_PATH) f2"
      using a by (simp add: operation_of_def)
    have "joinpath (parent mf) f1 = joinpath (parent mf) f2"
      using a by (intro same_destination_relative [OF _ _ d]) simp_all
    then have eq: "?op1 = ?op2"
      using d pd [OF wi] pd [OF wj] by (simp add: operation_of_def)
    have p: "precedes (determine_operations repos idx) ?op1 ?op2"
    proof (cases "t1 = t2")
      case True
      then show ?thesis by (rule same)
    next
      case False
      from keys [OF this] show ?thesis
      proof
        assume "precedes (map fst idx) t1 t2"
        then show ?thesis by (rule cross12)
      next
        assume "precedes (map fst idx) t2 t1"
        then have "precedes (determine_operations repos idx) ?op2 ?op1" by (rule cross21)
        then show ?thesis unfolding eq .
      qed
    qed
    from p have "precedes (determine_operations repos idx) ?op1 ?op1"
      unfolding eq [symmetric] .
    then have "2 \<le> count_list (determine_operations repos idx) ?op1"
      by (rule precedes_same_count)
    with eq p show ?thesis by simp
  qed
  from e1 e2 same rel cross12 cross21 keys show ?thesis by blast
qed

theorem same_destination_order_witness:
  "snd (load_workflows c3_fs manifest_path) = Inr ([c3_first, c3_second, c3_third], c3_index)
   \<and> (1::nat) < 2 \<and> 2 < length [c3_first, c3_second, c3_third]
   \<and> ''ci.yml'' \<in> set (wf_files c3_second) \<and> ''ci.yml'' \<in> set (wf_files c3_third)
   \<and> py_pkg \<in> set [empty_pkg, py_pkg]
   \<and> TString ''python'' \<in> set (wf_languages c3_second) \<and> relevant py_pkg (TString ''python'')
   \<and> TString ''*'' \<in> set (wf_languages c3_third) \<and> relevant py_pkg (TString ''*'')
   \<and> root (parse_path ''ci.yml'') = []
   \<and> snd (operation_of py_pkg c3_second ''ci.yml'') = snd (operation_of py_pkg c3_third ''ci.yml'')
   \<and> operation_of py_pkg c3_second ''ci.yml'' \<in> set (determine_operations [empty_pkg, py_pkg] c3_index)
   \<and> operation_of py_pkg c3_third ''ci.yml'' \<in> set (determine_operations [empty_pkg, py_pkg] c3_index)
   \<and> operation_of py_pkg c3_second ''ci.yml'' = operation_of py_pkg c3_third ''ci.yml''
   \<and> precedes (determine_operations [empty_pkg, py_pkg] c3_index)
       (operation_of py_pkg c3_second ''ci.yml'') (operation_of py_pkg c3_third ''ci.yml'')
   \<and> 2 \<le> count_list (determine_operations [empty_pkg, py_pkg] c3_index)
            (operation_of py_pkg c3_second ''ci.yml'')
   \<and> TString ''python'' \<noteq> TString ''*''
   \<and> precedes (map fst c3_index) (TString ''*'') (TString ''python'')
   \<and> precedes (determine_operations [empty_pkg, py_pkg] c3_index)
       (operation_of py_pkg c3_third ''b.yml'') (operation_of py_pkg c3_second ''ci.yml'')
   \<and> (0::nat) < 2
   \<and> ''a.yml'' \<in> set (wf_files c3_first) \<and> ''b.yml'' \<in> set (wf_files c3_third)
   \<and> TString ''*'' \<in> set (wf_languages c3_first)
   \<and> precedes (determine_operations [empty_pkg, py_pkg] c3_index)
       (operation_of py_pkg c3_first ''a.yml'') (operation_of py_pkg c3_third ''b.yml'')
   \<and> (0::nat) < 1 \<and> 1 < length [c3_first, c3_second, c3_third]
   \<and> precedes (determine_operations [empty_pkg, py_pkg] c3_index)
       (operation_of py_pkg c3_first ''a.yml'') (operation_of py_pkg c3_second ''ci.yml'')"
proof -
  let ?wfs = "[c3_first, c3_second, c3_third]"
  have n0: "?wfs ! 0 = c3_first" and n1: "?wfs ! 1 = c3_second" and n2: "?wfs ! 2 = c3_third"
    by simp_all
  have h1: "snd (load_workflows c3_fs manifest_path) = Inr (?wfs, c3_index)"
    by (simp add: c3_load)
  have l12: "(1::nat) < 2" and l02: "(0::nat) < 2" and l01: "(0::nat) < 1"
    and b2: "2 < length ?wfs" and b1: "1 < length ?wfs"
    by simp_all
  have fa0: "''a.yml'' \<in> set (wf_files (?wfs ! 0))"
    and fc1: "''ci.yml'' \<in> set (wf_files (?wfs ! 1))"
    and fc2: "''ci.yml'' \<in> set (wf_files (?wfs ! 2))"
    and fb2: "''b.yml'' \<in> set (wf_files (?wfs ! 2))"
    and ts0: "TString ''*'' \<in> set (wf_languages (?wfs ! 0))"
    and tp1: "TString ''python'' \<in> set (wf_languages (?wfs ! 1))"
    and ts2: "TString ''*'' \<in> set (wf_languages (?wfs ! 2))"
    unfolding n0 n1 n2 by (simp_all add: c3_defs)
  have rp: "py_pkg \<in> set [empty_pkg, py_pkg]"
    by simp
  have rs: "relevant py_pkg (TString ''*'')"
    by (simp add: relevant_def)
  have rpy: "relevant py_pkg (TString ''python'')"
    by (simp add: relevant_def py_pkg_def)
  have kr: "root (parse_path ''ci.yml'') = []"
    by (simp add: parse_path_def parse_root_def)
  have kd: "snd (operation_of py_pkg c3_second ''ci.yml'') =
            snd (operation_of py_pkg c3_third ''ci.yml'')"
    by (simp add: operation_of_def)
  have kh: "root (parse_path ''ci.yml'') = [] \<and> root (parse_path ''ci.yml'') = [] \<and>
            snd (operation_of py_pkg (?wfs ! 1) ''ci.yml'') =
            snd (operation_of py_pkg (?wfs ! 2) ''ci.yml'')"
    unfolding n1 n2 using kr kd by simp
  have ne: "TString ''python'' \<noteq> TString ''*''"
    by simp
  have ko: "precedes (map fst c3_index) (TString ''*'') (TString ''python'')"
    by (simp add: c3_index_def)
  note A = same_destination_order [OF h1 l12 b2 fc1 fc2 rp tp1 rpy ts2 rs]
  note a1 = A [THEN conjunct1, unfolded n1]
  note a2 = A [THEN conjunct2, THEN conjunct1, unfolded n2]
  note R = A [THEN conjunct2, THEN conjunct2, THEN conjunct1, THEN mp, OF kh, unfolded n1 n2]
  note B = same_destination_order [OF h1 l12 b2 fc1 fb2 rp tp1 rpy ts2 rs]
  note b21 = B [THEN conjunct2, THEN conjunct2, THEN conjunct2, THEN conjunct2, THEN conjunct2,
                THEN conjunct1, THEN mp, OF ko, unfolded n1 n2]
  note C = same_destination_order [OF h1 l02 b2 fa0 fb2 rp ts0 rs ts2 rs]
  note c = C [THEN conjunct2, THEN conjunct2, THEN conjunct2, THEN conjunct1, THEN mp, OF refl,
              unfolded n0 n2]
  note D = same_destination_order [OF h1 l01 b1 fa0 fc1 rp ts0 rs tp1 rpy]
  note d = D [THEN conjunct2, THEN conjunct2, THEN conjunct2, THEN conjunct2, THEN conjunct1,
              THEN mp, OF ko, unfolded n0 n1]
  show ?thesis
    by (intro conjI) (rule h1 l12 b2 fc1 [unfolded n1] fc2 [unfolded n2] rp tp1 [unfolded n1] rpy
        ts2 [unfolded n2] rs kr kd a1 a2 R [THEN conjunct1] R [THEN conjunct2, THEN conjunct1]
        R [THEN conjunct2, THEN conjunct2] ne ko b21 l02 fa0 [unfolded n0] fb2 [unfolded n2]
        ts0 [unfolded n0] c l01 b1 d)+
qed

lemma count_list_concat_ge:
  assumes "\<And>x. x \<in> set xs \<Longrightarrow> P x \<Longrightarrow> a \<in> set (g x)"
  shows "length (filter P xs) \<le> count_list (concat (map g xs)) a"
  using assms
proof (induction xs)
  case Nil
  show ?case by simp
next
  case (Cons x xs)
  have rest: "length (filter P xs) \<le> count_list (concat (map g xs)) a"
    using Cons.prems by (intro Cons.IH) auto
  show ?case
  proof (cases "P x")
    case True
    then have "a \<in> set (g x)" using Cons.prems by simp
    then have "1 \<le> count_list (g x) a"
      using count_list_0_iff [of "g x" a] by (cases "count_list (g x) a") auto
    with rest True show ?thesis by simp
  next
    case False
    with rest show ?thesis by simp
  qed
qed

lemma index_all_distinct:
  assumes "distinct tags" "set tags \<inter> fst ` set idx = {}"
  shows "index_all tags wflow idx = idx @ map (\<lambda>tag. (tag, [wflow])) tags"
  using assms unfolding index_all_def
proof (induction tags arbitrary: idx)
  case Nil
  show ?case by simp
next
  case (Cons tag tags)
  have a: "index_append tag wflow idx = idx @ [(tag, [wflow])]"
    using Cons.prems(2) by (induction idx) auto
  have "set tags \<inter> fst ` set (idx @ [(tag, [wflow])]) = {}"
    using Cons.prems by auto
  with Cons.prems(1) Cons.IH [of "idx @ [(tag, [wflow])]"] a show ?case
    by simp
qed

text \<open>
  Claim C10. A workflow listed under several tags that apply to a repository has its
  operations emitted once for each such tag: every operation of the workflow occurs in
  the result at least as often as there are applicable items of the index that hold the
  workflow, and for an index that lists one workflow alone under each of a list of tags,
  the result is the workflow's operations repeated once per applicable tag. Such an index
  is what the loader builds for a workflow with distinct tags.
\<close>

theorem one_workflow_per_tag:
  "(\<forall>wf_file \<in> set (wf_files wflow).
      length (filter (\<lambda>(lang, bucket). relevant repo lang \<and> wflow \<in> set bucket) idx)
        \<le> count_list (determine_operations [repo] idx) (operation_of repo wflow wf_file))
   \<and> determine_operations [repo] (map (\<lambda>tag. (tag, [wflow])) tags) =
       concat (map (\<lambda>tag. workflow_operations repo wflow) (filter (relevant repo) tags))
   \<and> (distinct tags \<and> (\<forall>tag \<in> set tags. hashable tag)
        \<longrightarrow> index_langs tags wflow [] = Inr (map (\<lambda>tag. (tag, [wflow])) tags))"
proof (intro conjI ballI impI)
  fix wf_file
  assume f: "wf_file \<in> set (wf_files wflow)"
  let ?block = "\<lambda>(lang, bucket). concat (map (workflow_operations repo) bucket)"
  let ?rel = "\<lambda>(lang, bucket). relevant repo lang"
  let ?has = "\<lambda>(lang, bucket). wflow \<in> set bucket"
  have "length (filter ?has (filter ?rel idx))
          \<le> count_list (concat (map ?block (filter ?rel idx))) (operation_of repo wflow wf_file)"
    using f by (intro count_list_concat_ge) (auto simp: workflow_operations_def)
  moreover have "filter ?has (filter ?rel idx) =
      filter (\<lambda>(lang, bucket). relevant repo lang \<and> wflow \<in> set bucket) idx"
    by (auto intro: filter_cong)
  ultimately show "length (filter (\<lambda>(lang, bucket). relevant repo lang \<and> wflow \<in> set bucket) idx)
        \<le> count_list (determine_operations [repo] idx) (operation_of repo wflow wf_file)"
    unfolding determine_operations_concat by simp
next
  show "determine_operations [repo] (map (\<lambda>tag. (tag, [wflow])) tags) =
       concat (map (\<lambda>tag. workflow_operations repo wflow) (filter (relevant repo) tags))"
    unfolding determine_operations_concat
    by (induction tags) simp_all
next
  assume "distinct tags \<and> (\<forall>tag \<in> set tags. hashable tag)"
  then show "index_langs tags wflow [] = Inr (map (\<lambda>tag. (tag, [wflow])) tags)"
    using index_all_distinct [of tags "[]" wflow] by (simp add: index_langs_eq)
qed

theorem one_workflow_per_tag_witness:
  "''lint.yml'' \<in> set (wf_files multi)
   \<and> length (filter (\<lambda>(lang, bucket). relevant py_pkg lang \<and> multi \<in> set bucket)
               [(TString ''python'', [multi]), (TString ''*'', [multi])]) = 2
   \<and> 2 \<le> count_list
            (determine_operations [py_pkg] [(TString ''python'', [multi]), (TString ''*'', [multi])])
            (operation_of py_pkg multi ''lint.yml'')
   \<and> determine_operations [py_pkg] [(TString ''python'', [multi]), (TString ''*'', [multi])] =
       [operation_of py_pkg multi ''lint.yml'', operation_of py_pkg multi ''lint.yml'']
   \<and> distinct [TString ''python'', TString ''*'']
   \<and> hashable (TString ''python'') \<and> hashable (TString ''*'')
   \<and> index_langs [TString ''python'', TString ''*''] multi [] =
       Inr [(TString ''python'', [multi]), (TString ''*'', [multi])]"
proof -
  let ?idx = "[(TString ''python'', [multi]), (TString ''*'', [multi])]"
  note T = one_workflow_per_tag [of multi py_pkg ?idx "[TString ''python'', TString ''*'']"]
  have h1: "''lint.yml'' \<in> set (wf_files multi)"
    by (simp add: multi_def)
  have n: "length (filter (\<lambda>(lang, bucket). relevant py_pkg lang \<and> multi \<in> set bucket) ?idx) = 2"
    by (simp add: relevant_def py_pkg_def)
  have c1: "2 \<le> count_list (determine_operations [py_pkg] ?idx) (operation_of py_pkg multi ''lint.yml'')"
    using T [THEN conjunct1, THEN bspec, OF h1] unfolding n .
  have r: "filter (relevant py_pkg) [TString ''python'', TString ''*''] = [TString ''python'', TString ''*'']"
    by (simp add: relevant_def py_pkg_def)
  have m: "map (\<lambda>tag. (tag, [multi])) [TString ''python'', TString ''*''] = ?idx"
    by simp
  have w: "workflow_operations py_pkg multi = [operation_of py_pkg multi ''lint.yml'']"
    by (simp add: workflow_operations_def multi_def)
  have c2: "determine_operations [py_pkg] ?idx =
       [operation_of py_pkg multi ''lint.yml'', operation_of py_pkg multi ''lint.yml'']"
    using T [THEN conjunct2, THEN conjunct1] unfolding m r by (simp add: w)
  have d: "distinct [TString ''python'', TString ''*'']"
    by simp
  have hp: "hashable (TString ''python'')" and hs: "hashable (TString ''*'')"
    by simp_all
  have h3: "distinct [TString ''python'', TString ''*''] \<and>
            (\<forall>tag \<in> set [TString ''python'', TString ''*'']. hashable tag)"
    by simp
  have c3: "index_langs [TString ''python'', TString ''*''] multi [] = Inr ?idx"
    using T [THEN conjunct2, THEN conjunct2, THEN mp, OF h3] unfolding m .
  show ?thesis
    by (intro conjI) (rule h1 n c1 c2 d hp hs c3)+
qed

end
